theory Spec2Isabelle
  imports Main
begin

section \<open>Data shared by the front end programs\<close>

text \<open>
  The fields of \<^verbatim>\<open>mportPackageMeta\<close> and \<^verbatim>\<open>mportIndexEntry\<close> that the two programs
  read.  A \<^verbatim>\<open>char *\<close> that the code compares with \<^verbatim>\<open>NULL\<close> is a \<open>string option\<close>, with
  \<open>None\<close> for \<^verbatim>\<open>NULL\<close>.  The index entry's \<^verbatim>\<open>version\<close> field is called \<open>ie_version\<close>
  here, since the package record already has a field of that name.
\<close>

record pkgmeta =
  name :: string
  version :: "string option"
  os_release :: "string option"
  locked :: bool

record index_entry =
  pkgname :: string
  ie_version :: "string option"

text \<open>
  How a run of a function ends when it does not simply return: \<^verbatim>\<open>exit\<close>/\<^verbatim>\<open>errx\<close> with a
  status, the dereference of a \<^verbatim>\<open>NULL\<close> pointer, or a read past the end of a vector
  (both undefined behaviour in C, a crash in practice).
\<close>

datatype halt = Exit int | NullDeref | OutOfBounds

section \<open>mport.list: the update listing (\<^verbatim>\<open>mport.list -u\<close>)\<close>

text \<open>
  \<^verbatim>\<open>mport_version_cmp\<close> belongs to the library.  It is a parameter \<open>cmp\<close> of the model; its
  arguments are C strings that may be \<^verbatim>\<open>NULL\<close>.  Every test returns its verdict together
  with the list of comparator calls it made, in order, so that the arguments the
  comparator receives are visible.
\<close>

type_synonym comparator = "string option \<Rightarrow> string option \<Rightarrow> int"
type_synonym cmp_call = "string option \<times> string option"

text \<open>Line 143: \<^verbatim>\<open>(*indexEntries)->version != NULL && mport_version_cmp(...) < 0\<close>.\<close>

definition version_test :: "comparator \<Rightarrow> pkgmeta \<Rightarrow> index_entry \<Rightarrow> bool \<times> cmp_call list" where
  "version_test cmp p e =
     (if ie_version e \<noteq> None
      then (cmp (version p) (ie_version e) < 0, [(version p, ie_version e)])
      else (False, []))"

text \<open>Line 144: \<^verbatim>\<open>(*packs)->version != NULL && mport_version_cmp((*packs)->os_release, os_release) < 0\<close>.\<close>

definition os_release_test :: "comparator \<Rightarrow> string option \<Rightarrow> pkgmeta \<Rightarrow> bool \<times> cmp_call list" where
  "os_release_test cmp sys_release p =
     (if version p \<noteq> None
      then (cmp (os_release p) sys_release < 0, [(os_release p, sys_release)])
      else (False, []))"

text \<open>The condition of lines 143-144; \<^verbatim>\<open>||\<close> evaluates its right operand only when the left is false.\<close>

definition outdated :: "comparator \<Rightarrow> string option \<Rightarrow> pkgmeta \<Rightarrow> index_entry \<Rightarrow> bool \<times> cmp_call list" where
  "outdated cmp sys_release p e =
     (case version_test cmp p e of
        (True, calls) \<Rightarrow> (True, calls)
      | (False, calls) \<Rightarrow>
          (case os_release_test cmp sys_release p of
             (b, calls') \<Rightarrow> (b, calls @ calls')))"

text \<open>
  What the listing prints: the line of 136 for a package that left the index, and the
  line of 147 (verbose) or 150 for a package and an index entry.
\<close>

datatype report_line = NoLongerAvailable pkgmeta | Outdated bool pkgmeta index_entry

text \<open>The inner loop, lines 142-155, over the entries of one package.\<close>

fun scan_entries ::
  "comparator \<Rightarrow> string option \<Rightarrow> bool \<Rightarrow> pkgmeta \<Rightarrow> index_entry list
     \<Rightarrow> report_line list \<times> cmp_call list" where
  "scan_entries cmp sys_release verbose p [] = ([], [])"
| "scan_entries cmp sys_release verbose p (e # es) =
     (case outdated cmp sys_release p e of
        (b, calls) \<Rightarrow>
          (case scan_entries cmp sys_release verbose p es of
             (lines, calls') \<Rightarrow>
               ((if b then [Outdated verbose p e] else []) @ lines, calls @ calls')))"

text \<open>
  The outer loop, lines 128-182, with \<^verbatim>\<open>update\<close> set.  \<open>lookup\<close> is
  \<^verbatim>\<open>mport_index_lookup_pkgname\<close>: \<open>Inl code\<close> when it does not return \<^verbatim>\<open>MPORT_OK\<close> (the
  program then exits with \<^verbatim>\<open>mport_err_code()\<close>, here \<open>code\<close>), otherwise the vector,
  \<open>None\<close> for a \<^verbatim>\<open>NULL\<close> vector.  The result is the lines printed, the comparator calls
  made and the exit status.
\<close>

type_synonym index_lookup = "string \<Rightarrow> int + index_entry list option"

fun list_updates ::
  "index_lookup \<Rightarrow> comparator \<Rightarrow> string option \<Rightarrow> bool \<Rightarrow> pkgmeta list
     \<Rightarrow> report_line list \<times> cmp_call list \<times> int" where
  "list_updates lookup cmp sys_release verbose [] = ([], [], 0)"
| "list_updates lookup cmp sys_release verbose (p # ps) =
     (case lookup (name p) of
        Inl code \<Rightarrow> ([], [], code)
      | Inr None \<Rightarrow>
          (case list_updates lookup cmp sys_release verbose ps of
             (lines, calls, status) \<Rightarrow> (NoLongerAvailable p # lines, calls, status))
      | Inr (Some []) \<Rightarrow>
          (case list_updates lookup cmp sys_release verbose ps of
             (lines, calls, status) \<Rightarrow> (NoLongerAvailable p # lines, calls, status))
      | Inr (Some (e # es)) \<Rightarrow>
          (case scan_entries cmp sys_release verbose p (e # es) of
             (lines1, calls1) \<Rightarrow>
               (case list_updates lookup cmp sys_release verbose ps of
                  (lines, calls, status) \<Rightarrow> (lines1 @ lines, calls1 @ calls, status))))"

text \<open>
  A comparator and data to run the listing on: versions compare by equality first and
  by length otherwise, a missing argument compares as equal.
\<close>

definition cmp_len :: comparator where
  "cmp_len a b =
     (case (a, b) of
        (Some x, Some y) \<Rightarrow>
          (if x = y then 0 else if length x < length y then - 1 else 1)
      | _ \<Rightarrow> 0)"

definition pkg_foo :: pkgmeta where
  "pkg_foo = \<lparr>name = ''foo'', version = Some ''1.0'', os_release = Some ''3.0'', locked = False\<rparr>"

definition entry_foo :: index_entry where
  "entry_foo = \<lparr>pkgname = ''foo'', ie_version = Some ''1.0.1''\<rparr>"

definition index_foo :: index_lookup where
  "index_foo n = Inr (Some (if n = ''foo'' then [entry_foo] else []))"

text \<open>An installed package whose version is missing and whose \<^verbatim>\<open>os_release\<close> is 2.\<close>

definition pkg_unversioned :: pkgmeta where
  "pkg_unversioned = \<lparr>name = ''foo'', version = None, os_release = Some ''2'', locked = False\<rparr>"

section \<open>mport: the bulk remover (\<^verbatim>\<open>deleteAll\<close>)\<close>

text \<open>
  The library calls of \<^verbatim>\<open>deleteAll\<close> are parameters of the model, over any type \<open>'s\<close> of
  store states.  A query answers \<open>NotOk\<close> when it does not return \<^verbatim>\<open>MPORT_OK\<close>, else
  \<open>Ok v\<close> with the vector it stored, \<open>None\<close> for \<^verbatim>\<open>NULL\<close>.  \<open>delete_command\<close> is the
  \<^verbatim>\<open>system("/usr/libexec/mport.delete -n <name>")\<close> of \<^verbatim>\<open>delete\<close>: its status and the
  store it leaves.
\<close>

datatype 'a answer = NotOk | Ok 'a

record 's store_ops =
  pkgmeta_list :: "'s \<Rightarrow> pkgmeta list option answer"
  pkgmeta_get_updepends :: "'s \<Rightarrow> pkgmeta \<Rightarrow> pkgmeta list option answer"
  delete_command :: "string \<Rightarrow> 's \<Rightarrow> int \<times> 's"

text \<open>
  \<^verbatim>\<open>delete\<close>, lines 646-660.  The branch for a failed \<^verbatim>\<open>asprintf\<close> (out of memory) is
  not modelled.
\<close>

definition delete :: "'s store_ops \<Rightarrow> string \<Rightarrow> 's \<Rightarrow> int \<times> 's" where
  "delete ops packageName s = delete_command ops packageName s"

text \<open>
  The variables of \<^verbatim>\<open>deleteAll\<close>, with the store.  \<open>attempts\<close> is not a variable of the
  code: it lists the names \<^verbatim>\<open>delete\<close> was called with, in order.
\<close>

record 's da_state =
  store :: 's
  total :: int
  errors :: int
  skip :: int
  attempts :: "string list"

text \<open>The body of the inner loop, lines 767-779, for one package of the snapshot.\<close>

definition examine :: "'s store_ops \<Rightarrow> pkgmeta \<Rightarrow> 's da_state \<Rightarrow> 's da_state" where
  "examine ops p st =
     (case pkgmeta_get_updepends ops (store st) p of
        NotOk \<Rightarrow> st
      | Ok None \<Rightarrow>
          (case delete ops (name p) (store st) of
             (rc, s') \<Rightarrow>
               st\<lparr>store := s',
                  errors := (if rc \<noteq> 0 then errors st + 1 else errors st),
                  total := total st + 1,
                  attempts := attempts st @ [name p]\<rparr>)
      | Ok (Some depends) \<Rightarrow> st\<lparr>skip := skip st + 1\<rparr>)"

text \<open>The inner loop, lines 766-780: one pass over the snapshot.\<close>

fun pass :: "'s store_ops \<Rightarrow> pkgmeta list \<Rightarrow> 's da_state \<Rightarrow> 's da_state" where
  "pass ops [] st = st"
| "pass ops (p # packs) st = pass ops packs (examine ops p st)"

text \<open>
  The outer loop with what follows it, lines 764-793.  The result is the value
  returned (or how the run halts), the three numbers of the summary line when it is
  printed (deleted, errors, total), and the final state; \<open>None\<close> when the loop never
  ends.  After a pass that skipped something the list is fetched again; were it
  \<^verbatim>\<open>NULL\<close>, line 766 would dereference it.
\<close>

type_synonym 's da_result = "(halt + int) \<times> (int \<times> int \<times> int) option \<times> 's da_state"

partial_function (option) deleteAll_loop ::
  "'s store_ops \<Rightarrow> pkgmeta list \<Rightarrow> 's da_state \<Rightarrow> 's da_result option" where
  "deleteAll_loop ops packs st =
     (let st' = pass ops packs (st\<lparr>skip := 0\<rparr>) in
      if skip st' = 0
      then Some (Inr 0, Some (total st' - errors st', errors st', total st'), st')
      else (case pkgmeta_list ops (store st') of
              NotOk \<Rightarrow> Some (Inr 1, None, st')
            | Ok None \<Rightarrow> Some (Inl NullDeref, None, st')
            | Ok (Some packs') \<Rightarrow> deleteAll_loop ops packs' st'))"

text \<open>
  The state at line 750: the counters at 0 (\<^verbatim>\<open>skip\<close> is set at the head of the loop) and
  no deletion attempted.
\<close>

definition da_init :: "'s \<Rightarrow> 's da_state" where
  "da_init s = \<lparr>store = s, total = 0, errors = 0, skip = 0, attempts = []\<rparr>"

text \<open>\<^verbatim>\<open>deleteAll\<close>, lines 746-794.\<close>

definition deleteAll :: "'s store_ops \<Rightarrow> 's \<Rightarrow> 's da_result option" where
  "deleteAll ops s =
     (case pkgmeta_list ops s of
        NotOk \<Rightarrow> Some (Inr 1, None, da_init s)
      | Ok None \<Rightarrow> Some (Inr 1, None, da_init s)
      | Ok (Some packs) \<Rightarrow> deleteAll_loop ops packs (da_init s))"

subsection \<open>A package store\<close>

text \<open>
  The library is not part of these sources, so the store that the properties of the
  remover are stated for is built from the specification: the installed packages in
  list order, each with the names of the packages it requires (its dependency
  edges).
\<close>

record installed =
  meta :: pkgmeta
  depends :: "string list"

type_synonym pkgstore = "installed list"

text \<open>
  Modelled from the spec: \<^verbatim>\<open>mport_pkgmeta_list\<close> (\<open>listInstalled\<close>) is missing from the
  sources.  It is the snapshot of the currently installed packages; \<^verbatim>\<open>deleteAll\<close> reads a
  \<^verbatim>\<open>NULL\<close> vector as "No packages installed".
\<close>

definition store_list :: "pkgstore \<Rightarrow> pkgmeta list option answer" where
  "store_list s = Ok (if s = [] then None else Some (map meta s))"

text \<open>
  Modelled from the spec: \<^verbatim>\<open>mport_pkgmeta_get_updepends\<close> (\<open>getUpDependencies\<close>) is
  missing from the sources.  Following the contract of the remover ("a package must not
  be removed while another installed package still depends on it") and its scenario
  (of A and B, where B requires A, B is removed first), the query for a package yields
  the installed packages that require it, against the live store, and \<^verbatim>\<open>NULL\<close> when
  there is none.
\<close>

definition dependents :: "pkgstore \<Rightarrow> string \<Rightarrow> installed list" where
  "dependents s n = filter (\<lambda>q. n \<in> set (depends q)) s"

definition store_updepends :: "pkgstore \<Rightarrow> pkgmeta \<Rightarrow> pkgmeta list option answer" where
  "store_updepends s p =
     Ok (if dependents s (name p) = [] then None else Some (map meta (dependents s (name p))))"

text \<open>
  Modelled from the spec: the deletion command (\<open>deletePackage\<close>) is missing from the
  sources.  It removes the installed package of the given name and returns 0; it may
  fail, and the check of the lock flag is the store's: on a locked package it returns a
  non-zero status and leaves the store as it was.
\<close>

definition store_delete :: "string \<Rightarrow> pkgstore \<Rightarrow> int \<times> pkgstore" where
  "store_delete n s =
     (if list_ex (\<lambda>q. name (meta q) = n \<and> locked (meta q)) s
      then (1, s)
      else (0, filter (\<lambda>q. name (meta q) \<noteq> n) s))"

definition mport_store :: "pkgstore store_ops" where
  "mport_store =
     \<lparr>pkgmeta_list = store_list,
      pkgmeta_get_updepends = store_updepends,
      delete_command = store_delete\<rparr>"

text \<open>
  The dependency edges of a store, from a package's name to each name it requires,
  and the names installed.  A store is acyclic when its edges are.
\<close>

definition dep_edges :: "pkgstore \<Rightarrow> (string \<times> string) list" where
  "dep_edges s = concat (map (\<lambda>q. map (\<lambda>d. (name (meta q), d)) (depends q)) s)"

definition names :: "pkgstore \<Rightarrow> string list" where
  "names s = map (\<lambda>q. name (meta q)) s"

definition acyclic_store :: "pkgstore \<Rightarrow> bool" where
  "acyclic_store s = acyclic (set (dep_edges s))"

text \<open>
  A list \<open>C\<close> of names is a knot of the store when it is not empty and each of its names
  is installed and required by an installed package whose name is in \<open>C\<close> again: the
  packages of a dependency cycle form one.
\<close>

definition knot :: "pkgstore \<Rightarrow> string list \<Rightarrow> bool" where
  "knot s C =
     (C \<noteq> [] \<and>
      list_all (\<lambda>n. n \<in> set (names s) \<and>
                     list_ex (\<lambda>q. name (meta q) \<in> set C \<and> n \<in> set (depends q)) s) C)"

text \<open>
  Stores to run the remover on: \<open>pkg n\<close> is an unlocked package named \<open>n\<close>, \<open>inst n ds\<close>
  its installation requiring the names \<open>ds\<close>.  In \<open>store_AB\<close> the package B requires A;
  in \<open>store_cycle\<close> each of A and B requires the other.
\<close>

definition pkg :: "string \<Rightarrow> pkgmeta" where
  "pkg n = \<lparr>name = n, version = Some ''1'', os_release = Some ''1'', locked = False\<rparr>"

definition inst :: "string \<Rightarrow> string list \<Rightarrow> installed" where
  "inst n ds = \<lparr>meta = pkg n, depends = ds\<rparr>"

definition store_AB :: pkgstore where
  "store_AB = [inst ''A'' [], inst ''B'' [''A'']]"

definition store_cycle :: pkgstore where
  "store_cycle = [inst ''A'' [''B''], inst ''B'' [''A'']]"


definition store_locked :: pkgstore where
  "store_locked = [\<lparr>meta = (pkg ''A'')\<lparr>locked := True\<rparr>, depends = []\<rparr>]"

section \<open>mport: the install resolver (\<^verbatim>\<open>install\<close>)\<close>

text \<open>
  The library calls of \<^verbatim>\<open>install\<close> are parameters: \<open>index_lookup_pkgname\<close> is
  \<^verbatim>\<open>mport_index_lookup_pkgname\<close> (\<open>Inl code\<close> when it does not return \<^verbatim>\<open>MPORT_OK\<close>, with
  \<open>code\<close> the value of \<^verbatim>\<open>mport_err_code()\<close>), and \<open>install_depends\<close> is the result code of
  \<^verbatim>\<open>mport_install_depends\<close> for a package name and version, called with
  \<^verbatim>\<open>MPORT_EXPLICIT\<close>.
\<close>

record install_env =
  index_lookup_pkgname :: index_lookup
  install_depends :: "string \<Rightarrow> string option \<Rightarrow> int"

text \<open>
  What \<^verbatim>\<open>install\<close> reads and writes.  \<open>stdin\<close> is the operator's input as \<^verbatim>\<open>scanf("%d")\<close>
  sees it: a number it can convert, or text it cannot.  \<open>requests\<close> lists the calls of
  \<^verbatim>\<open>mport_install_depends\<close> made so far, \<open>menus\<close> counts the numbered lists printed and
  \<open>reprompts\<close> the messages of line 628.
\<close>

datatype token = Num int | Junk

record world =
  stdin :: "token list"
  requests :: "(string \<times> string option) list"
  menus :: nat
  reprompts :: nat

text \<open>
  \<^verbatim>\<open>scanf("%d", &choice)\<close>: \<open>Some k\<close> when it returns 1 and stores \<open>k\<close>; \<open>None\<close> when it
  returns less than 1, which is 0 on text that is not a number (the text stays in the
  input) and \<^verbatim>\<open>EOF\<close> at the end of the input.  The second component is the input left.
\<close>

fun scanf_d :: "token list \<Rightarrow> int option \<times> token list" where
  "scanf_d [] = (None, [])"
| "scanf_d (Num k # rest) = (Some k, rest)"
| "scanf_d (Junk # rest) = (None, Junk # rest)"

text \<open>
  Lines 627-629, \<^verbatim>\<open>while (scanf("%d", &choice) < 1 || choice > item || choice < 0)\<close>.
  When \<^verbatim>\<open>scanf\<close> returns less than 1, \<^verbatim>\<open>||\<close> does not read \<^verbatim>\<open>choice\<close>.  \<open>None\<close> when the
  loop never ends.
\<close>

partial_function (option) read_choice :: "int \<Rightarrow> world \<Rightarrow> (int \<times> world) option" where
  "read_choice item w =
     (case scanf_d (stdin w) of
        (None, rest) \<Rightarrow> read_choice item (w\<lparr>stdin := rest, reprompts := reprompts w + 1\<rparr>)
      | (Some choice, rest) \<Rightarrow>
          if choice > item \<or> choice < 0
          then read_choice item (w\<lparr>stdin := rest, reprompts := reprompts w + 1\<rparr>)
          else Some (choice, w\<lparr>stdin := rest\<rparr>))"

text \<open>
  Lines 630-636: \<^verbatim>\<open>indexEntry\<close> moves forward until \<^verbatim>\<open>item == choice\<close>.  A pointer into
  the \<^verbatim>\<open>NULL\<close>-terminated vector is the list of the entries from it on, \<open>[]\<close> at the
  terminator; the pointer itself is never \<^verbatim>\<open>NULL\<close>, so only the \<^verbatim>\<open>break\<close> ends the loop.
\<close>

fun advance :: "index_entry list \<Rightarrow> int \<Rightarrow> int \<Rightarrow> halt + index_entry list" where
  "advance [] item choice = (if item = choice then Inr [] else Inl OutOfBounds)"
| "advance (e # es) item choice =
     (if item = choice then Inr (e # es) else advance es (item + 1) choice)"

text \<open>
  Lines 594-601: the index of the last \<^verbatim>\<open>'-'\<close> of the specifier, or -1.  \<open>find_loc s n\<close>
  scans the positions below \<open>n\<close> downwards; the code starts at \<^verbatim>\<open>strlen(packageName)\<close>.
\<close>

fun find_loc :: "string \<Rightarrow> nat \<Rightarrow> int" where
  "find_loc packageName 0 = - 1"
| "find_loc packageName (Suc i) =
     (if packageName ! i = CHR ''-'' then int i else find_loc packageName i)"

text \<open>\<^verbatim>\<open>lookupIndex\<close>, lines 429-440: a failed lookup ends the process with the error code.\<close>

definition lookupIndex :: "install_env \<Rightarrow> string \<Rightarrow> halt + index_entry list option" where
  "lookupIndex env packageName =
     (case index_lookup_pkgname env packageName of
        Inl code \<Rightarrow> Inl (Exit code)
      | Inr v \<Rightarrow> Inr v)"

text \<open>
  Lines 603-612, entered when the verbatim lookup gave no entry and \<^verbatim>\<open>loc > 0\<close>: the second
  lookup, with the name cut at \<^verbatim>\<open>loc\<close>, and the comparison of the rest with the version
  of the first entry found.  \<^verbatim>\<open>(*indexEntry)->version\<close> dereferences the first element of
  the vector, and \<^verbatim>\<open>strcmp\<close> dereferences the version.
\<close>

definition requery :: "install_env \<Rightarrow> string \<Rightarrow> nat \<Rightarrow> halt + index_entry list option" where
  "requery env packageName loc =
     (let d = take loc packageName; v = drop (loc + 1) packageName in
      case lookupIndex env d of
        Inl h \<Rightarrow> Inl h
      | Inr None \<Rightarrow> Inl NullDeref
      | Inr (Some []) \<Rightarrow> Inl NullDeref
      | Inr (Some (e # es)) \<Rightarrow>
          (case ie_version e of
             None \<Rightarrow> Inl NullDeref
           | Some ver \<Rightarrow> if v \<noteq> ver then Inl (Exit 4) else Inr (Some (e # es))))"

text \<open>Lines 592-613: the value of \<^verbatim>\<open>indexEntry\<close> before line 615.\<close>

definition resolve :: "install_env \<Rightarrow> string \<Rightarrow> halt + index_entry list option" where
  "resolve env packageName =
     (case lookupIndex env packageName of
        Inl h \<Rightarrow> Inl h
      | Inr None \<Rightarrow> Inl NullDeref
      | Inr (Some (e # es)) \<Rightarrow> Inr (Some (e # es))
      | Inr (Some []) \<Rightarrow>
          (let loc = find_loc packageName (length packageName) in
           if loc > 0 then requery env packageName (nat loc) else Inr (Some [])))"

text \<open>
  Lines 618-637, entered when \<^verbatim>\<open>indexEntry[1] != NULL\<close>: the numbered list, the prompt and
  the move to the chosen entry.  \<open>None\<close> when the prompt never ends.
\<close>

definition select_entry :: "index_entry list \<Rightarrow> world \<Rightarrow> ((halt + index_entry list) \<times> world) option" where
  "select_entry entries w =
     (case read_choice (int (length entries)) (w\<lparr>menus := menus w + 1\<rparr>) of
        None \<Rightarrow> None
      | Some (choice, w') \<Rightarrow> Some (advance entries 0 choice, w'))"

text \<open>
  Lines 639-643: \<^verbatim>\<open>(*indexEntry)->pkgname\<close> dereferences the element the pointer is at,
  which is \<^verbatim>\<open>NULL\<close> at the terminator.
\<close>

definition request :: "install_env \<Rightarrow> index_entry list \<Rightarrow> world \<Rightarrow> (halt + int) \<times> world" where
  "request env entries w =
     (case entries of
        [] \<Rightarrow> (Inl NullDeref, w)
      | e # es \<Rightarrow>
          (Inr (install_depends env (pkgname e) (ie_version e)),
           w\<lparr>requests := requests w @ [(pkgname e, ie_version e)]\<rparr>))"

text \<open>\<^verbatim>\<open>install\<close>, lines 584-644.\<close>

definition install :: "install_env \<Rightarrow> string \<Rightarrow> world \<Rightarrow> ((halt + int) \<times> world) option" where
  "install env packageName w =
     (case resolve env packageName of
        Inl h \<Rightarrow> Some (Inl h, w)
      | Inr None \<Rightarrow> Some (Inl (Exit 4), w)
      | Inr (Some []) \<Rightarrow> Some (Inl (Exit 4), w)
      | Inr (Some [e]) \<Rightarrow> Some (request env [e] w)
      | Inr (Some (e # e' # es)) \<Rightarrow>
          (case select_entry (e # e' # es) w of
             None \<Rightarrow> None
           | Some (Inl h, w') \<Rightarrow> Some (Inl h, w')
           | Some (Inr entries, w') \<Rightarrow> Some (request env entries w')))"

section \<open>mport: the batch commands of \<^verbatim>\<open>main\<close>\<close>

text \<open>
  The loops of lines 160-164, 170-174 and 181-185 are the same loop over
  \<^verbatim>\<open>argv[1..]\<close> around a different call \<open>f\<close>; \<open>resultCode\<close> is overwritten by each result
  that is not 0.  A call that ends the process ends the loop.
\<close>

fun batch ::
  "(string \<Rightarrow> 'w \<Rightarrow> ((halt + int) \<times> 'w) option) \<Rightarrow> string list \<Rightarrow> int \<Rightarrow> 'w
     \<Rightarrow> ((halt + int) \<times> 'w) option" where
  "batch f [] resultCode w = Some (Inr resultCode, w)"
| "batch f (a # as) resultCode w =
     (case f a w of
        None \<Rightarrow> None
      | Some (Inl h, w') \<Rightarrow> Some (Inl h, w')
      | Some (Inr tempResultCode, w') \<Rightarrow>
          batch f as (if tempResultCode \<noteq> 0 then tempResultCode else resultCode) w')"

text \<open>
  A batch command from its argument check to \<^verbatim>\<open>exit(resultCode)\<close> at line 369.
  \<open>err_fatal\<close> is \<^verbatim>\<open>MPORT_ERR_FATAL\<close>, the initial value of \<^verbatim>\<open>resultCode\<close> (line 85); the
  header that defines it is not part of the sources, so it is a parameter.  With no
  argument after the command, \<^verbatim>\<open>usage\<close> exits with \<^verbatim>\<open>EXIT_FAILURE\<close>.
\<close>

definition EXIT_FAILURE :: int where
  "EXIT_FAILURE = 1"

definition run_batch ::
  "int \<Rightarrow> (string \<Rightarrow> 'w \<Rightarrow> ((halt + int) \<times> 'w) option) \<Rightarrow> string list \<Rightarrow> 'w
     \<Rightarrow> (halt \<times> 'w) option" where
  "run_batch err_fatal f args w =
     (if args = [] then Some (Exit EXIT_FAILURE, w)
      else (case batch f args err_fatal w of
              None \<Rightarrow> None
            | Some (Inl h, w') \<Rightarrow> Some (h, w')
            | Some (Inr resultCode, w') \<Rightarrow> Some (Exit resultCode, w')))"

text \<open>
  \<^verbatim>\<open>loadIndex\<close>, lines 420-427: \<^verbatim>\<open>mport_index_load\<close> returns \<^verbatim>\<open>MPORT_OK\<close>, \<^verbatim>\<open>MPORT_ERR_WARN\<close>
  (a warning is printed) or something else (the process exits with 4).
\<close>

datatype load_result = LoadOk | LoadWarn | LoadFailed

definition loadIndex :: "load_result \<Rightarrow> halt option" where
  "loadIndex r = (case r of LoadFailed \<Rightarrow> Some (Exit 4) | _ \<Rightarrow> None)"

text \<open>
  \<^verbatim>\<open>mport install\<close>, lines 154-164.  The argument check comes before the load of the
  index.
\<close>

definition main_install ::
  "int \<Rightarrow> install_env \<Rightarrow> load_result \<Rightarrow> string list \<Rightarrow> world \<Rightarrow> (halt \<times> world) option" where
  "main_install err_fatal env load args w =
     (if args = [] then Some (Exit EXIT_FAILURE, w)
      else (case loadIndex load of
              Some h \<Rightarrow> Some (h, w)
            | None \<Rightarrow> run_batch err_fatal (install env) args w))"

text \<open>
  \<^verbatim>\<open>delete\<close> and \<^verbatim>\<open>mport_update\<close> always return to the loop: a call that yields a result
  code and a new state, as a call of a batch.
\<close>

definition returning ::
  "(string \<Rightarrow> 'w \<Rightarrow> int \<times> 'w) \<Rightarrow> string \<Rightarrow> 'w \<Rightarrow> ((halt + int) \<times> 'w) option" where
  "returning g a w = (case g a w of (rc, w') \<Rightarrow> Some (Inr rc, w'))"

text \<open>
  \<^verbatim>\<open>mport delete\<close>, lines 165-174: each argument goes to \<^verbatim>\<open>delete\<close>, which returns the
  status of the deletion command.
\<close>

definition main_delete ::
  "int \<Rightarrow> 's store_ops \<Rightarrow> string list \<Rightarrow> 's \<Rightarrow> (halt \<times> 's) option" where
  "main_delete err_fatal ops args s = run_batch err_fatal (returning (delete ops)) args s"

text \<open>
  \<^verbatim>\<open>mport update\<close>, lines 175-185: each argument goes to \<^verbatim>\<open>mport_update\<close> of the library,
  the parameter \<open>update\<close>.
\<close>

definition main_update ::
  "int \<Rightarrow> (string \<Rightarrow> 'w \<Rightarrow> int \<times> 'w) \<Rightarrow> load_result \<Rightarrow> string list \<Rightarrow> 'w
     \<Rightarrow> (halt \<times> 'w) option" where
  "main_update err_fatal update load args w =
     (if args = [] then Some (Exit EXIT_FAILURE, w)
      else (case loadIndex load of
              Some h \<Rightarrow> Some (h, w)
            | None \<Rightarrow> run_batch err_fatal (returning update) args w))"

text \<open>\<^verbatim>\<open>mport deleteall\<close>, lines 306-307 and 369: the process exits with what \<^verbatim>\<open>deleteAll\<close> returns.\<close>

definition main_deleteall :: "'s store_ops \<Rightarrow> 's \<Rightarrow> (halt \<times> 's da_state) option" where
  "main_deleteall ops s =
     (case deleteAll ops s of
        None \<Rightarrow> None
      | Some (Inl h, summary, st) \<Rightarrow> Some (h, st)
      | Some (Inr resultCode, summary, st) \<Rightarrow> Some (Exit resultCode, st))"

text \<open>
  An index to run \<^verbatim>\<open>install\<close> on: it holds the given entries under the name
  \<^verbatim>\<open>foo\<close> and nothing else, and the installer returns 0.
\<close>

definition index_of :: "index_entry list \<Rightarrow> install_env" where
  "index_of es =
     \<lparr>index_lookup_pkgname = (\<lambda>n. Inr (Some (if n = ''foo'' then es else []))),
      install_depends = (\<lambda>n v. 0)\<rparr>"

definition foo_entry :: "string \<Rightarrow> index_entry" where
  "foo_entry v = \<lparr>pkgname = ''foo'', ie_version = Some v\<rparr>"

definition world0 :: "token list \<Rightarrow> world" where
  "world0 input = \<lparr>stdin = input, requests = [], menus = 0, reprompts = 0\<rparr>"

text \<open>
  The result codes of a batch, in order: those of the calls that returned, up to the
  first call that did not.
\<close>

fun codes ::
  "(string \<Rightarrow> 'w \<Rightarrow> ((halt + int) \<times> 'w) option) \<Rightarrow> string list \<Rightarrow> 'w \<Rightarrow> int list" where
  "codes f [] w = []"
| "codes f (a # as) w =
     (case f a w of
        Some (Inr tempResultCode, w') \<Rightarrow> tempResultCode # codes f as w'
      | _ \<Rightarrow> [])"

section \<open>Properties of the update listing\<close>

lemma outdated_verdict:
  "fst (outdated cmp sys_release p e) \<longleftrightarrow>
     (ie_version e \<noteq> None \<and> cmp (version p) (ie_version e) < 0)
     \<or> (version p \<noteq> None \<and> cmp (os_release p) sys_release < 0)"
  by (auto simp: outdated_def version_test_def os_release_test_def split: bool.splits)

lemma scan_entries_lines:
  "set (fst (scan_entries cmp sys_release verbose p es)) =
     {Outdated verbose p e | e. e \<in> set es \<and> fst (outdated cmp sys_release p e)}"
proof (induction es)
  case Nil
  show ?case by simp
next
  case (Cons e es)
  obtain b calls where o: "outdated cmp sys_release p e = (b, calls)"
    by (cases "outdated cmp sys_release p e")
  obtain lines calls' where r: "scan_entries cmp sys_release verbose p es = (lines, calls')"
    by (cases "scan_entries cmp sys_release verbose p es")
  from Cons o r show ?case by auto
qed

lemma list_updates_lines:
  assumes "\<forall>q\<in>set packs. \<exists>v. lookup (name q) = Inr v"
  shows "Outdated verbose P E \<in> set (fst (list_updates lookup cmp sys_release verbose packs)) \<longleftrightarrow>
           (\<exists>es. P \<in> set packs \<and> lookup (name P) = Inr (Some es) \<and> E \<in> set es
                 \<and> fst (outdated cmp sys_release P E))"
  using assms
proof (induction packs)
  case Nil
  show ?case by simp
next
  case (Cons p ps)
  let ?L = "\<lambda>qs. Outdated verbose P E \<in> set (fst (list_updates lookup cmp sys_release verbose qs))"
  let ?H = "\<lambda>q. \<exists>es. P = q \<and> lookup (name q) = Inr (Some es) \<and> E \<in> set es
                 \<and> fst (outdated cmp sys_release q E)"
  let ?R = "\<lambda>qs. \<exists>es. P \<in> set qs \<and> lookup (name P) = Inr (Some es) \<and> E \<in> set es
                 \<and> fst (outdated cmp sys_release P E)"
  from Cons.prems obtain v where v: "lookup (name p) = Inr v" by auto
  from Cons have IH: "?L ps \<longleftrightarrow> ?R ps" by simp
  have R: "?R (p # ps) \<longleftrightarrow> ?H p \<or> ?R ps" by auto
  obtain ls cs st where r: "list_updates lookup cmp sys_release verbose ps = (ls, cs, st)"
    by (cases "list_updates lookup cmp sys_release verbose ps")
  have "?L (p # ps) \<longleftrightarrow> ?H p \<or> ?L ps"
  proof (cases v)
    case None
    have a: "fst (list_updates lookup cmp sys_release verbose (p # ps)) = NoLongerAvailable p # ls"
      by (simp add: v None r)
    have b: "?H p = False" by (simp add: v None)
    show ?thesis unfolding a b by (simp add: r)
  next
    case (Some es)
    show ?thesis
    proof (cases es)
      case Nil
      have a: "fst (list_updates lookup cmp sys_release verbose (p # ps)) = NoLongerAvailable p # ls"
        by (simp add: v Some Nil r)
      have b: "?H p = False" by (simp add: v Some Nil)
      show ?thesis unfolding a b by (simp add: r)
    next
      case (Cons e es')
      obtain l1 c1 where s: "scan_entries cmp sys_release verbose p es = (l1, c1)"
        by (cases "scan_entries cmp sys_release verbose p es")
      have l1: "set l1 = {Outdated verbose p x | x. x \<in> set es \<and> fst (outdated cmp sys_release p x)}"
        using scan_entries_lines[of cmp sys_release verbose p es] s by simp
      have a: "fst (list_updates lookup cmp sys_release verbose (p # ps)) = l1 @ ls"
        using s by (simp add: v Some Cons r)
      have b: "Outdated verbose P E \<in> set l1 \<longleftrightarrow> ?H p"
        unfolding l1 by (auto simp: v Some)
      show ?thesis unfolding a using b by (simp add: r)
    qed
  qed
  with IH R show ?case by simp
qed

text \<open>
  For an installed package \<open>P\<close> of the listing and an index entry \<open>E\<close> that the lookup of
  \<open>P\<close>'s name returns, both with a version, the listing prints the line for \<open>P\<close> and \<open>E\<close>
  exactly when the comparator puts \<open>P\<close>'s version below \<open>E\<close>'s, or \<open>P\<close>'s \<^verbatim>\<open>os_release\<close>
  below the system's.  (No lookup of the run fails: a failed lookup ends the program.)
\<close>

lemma outdated_line_iff_with_versions:
  assumes "\<forall>q\<in>set packs. \<exists>v. lookup (name q) = Inr v"
      and "P \<in> set packs" and "lookup (name P) = Inr (Some es)" and "E \<in> set es"
      and "version P \<noteq> None" and "ie_version E \<noteq> None"
  shows "Outdated verbose P E \<in> set (fst (list_updates lookup cmp sys_release verbose packs))
         \<longleftrightarrow> cmp (version P) (ie_version E) < 0 \<or> cmp (os_release P) sys_release < 0"
  using assms list_updates_lines[OF assms(1), of verbose P E cmp sys_release]
  by (auto simp: outdated_verdict)

lemma outdated_line_iff_with_versions_example:
  "(\<exists>v. index_foo (name pkg_foo) = Inr v) \<and> pkg_foo \<in> set [pkg_foo]
   \<and> index_foo (name pkg_foo) = Inr (Some [entry_foo]) \<and> entry_foo \<in> set [entry_foo]
   \<and> version pkg_foo \<noteq> None \<and> ie_version entry_foo \<noteq> None
   \<and> cmp_len (version pkg_foo) (ie_version entry_foo) < 0
   \<and> Outdated False pkg_foo entry_foo
        \<in> set (fst (list_updates index_foo cmp_len (Some ''3.0'') False [pkg_foo]))"
  using outdated_line_iff_with_versions[of "[pkg_foo]" index_foo pkg_foo "[entry_foo]" entry_foo False cmp_len "Some ''3.0''"]
  by (simp add: index_foo_def pkg_foo_def entry_foo_def cmp_len_def)

text \<open>
  C2.  The claim is that the line for \<open>P\<close> and \<open>E\<close> is printed exactly when \<open>P\<close>'s version
  compares below \<open>E\<close>'s or \<open>P\<close>'s \<^verbatim>\<open>os_release\<close> compares below the system's, the second
  test not depending on the version.  Line 144 guards the \<^verbatim>\<open>os_release\<close> test with the
  package's version: for a package with no version and \<^verbatim>\<open>os_release\<close> 2, on a system of
  release 3.0, the comparator puts the package's release below the system's, and the
  listing prints no line (the only comparator call made is the version test of line
  143, with the missing version).
\<close>

theorem update_diff_misses_os_release:
  "index_foo (name pkg_unversioned) = Inr (Some [entry_foo])
   \<and> cmp_len (os_release pkg_unversioned) (Some ''3.0'') < 0
   \<and> list_updates index_foo cmp_len (Some ''3.0'') False [pkg_unversioned]
       = ([], [(None, Some ''1.0.1'')], 0)"
  by (simp add: index_foo_def pkg_unversioned_def entry_foo_def cmp_len_def outdated_def
      version_test_def os_release_test_def)

text \<open>
  C8.  The claim is that a missing version or \<^verbatim>\<open>os_release\<close> of the installed package keeps
  the comparator from being called with it.  The guards of lines 143-144 test other
  fields: with the package's version missing the comparator is called with it as first
  argument, and with the \<^verbatim>\<open>os_release\<close> missing (and the version test false) it is called
  with the missing \<^verbatim>\<open>os_release\<close>.
\<close>

theorem outdated_compares_missing_data:
  "snd (outdated cmp_len (Some ''3.0'') (pkg_foo\<lparr>version := None\<rparr>) entry_foo)
     = [(None, Some ''1.0.1'')]
   \<and> snd (outdated cmp_len (Some ''3.0'') (pkg_foo\<lparr>os_release := None\<rparr>) (entry_foo\<lparr>ie_version := Some ''1.0''\<rparr>))
     = [(Some ''1.0'', Some ''1.0''), (None, Some ''3.0'')]"
  by (simp add: outdated_def version_test_def os_release_test_def pkg_foo_def entry_foo_def cmp_len_def)

section \<open>Properties of the install resolver\<close>

subsection \<open>The split at the last hyphen\<close>

lemma find_loc_sound:
  "find_loc s n = int p \<Longrightarrow> p < n \<and> s ! p = CHR ''-'' \<and> (\<forall>j. p < j \<and> j < n \<longrightarrow> s ! j \<noteq> CHR ''-'')"
proof (induction n)
  case 0
  then show ?case by simp
next
  case (Suc n)
  show ?case
  proof (cases "s ! n = CHR ''-''")
    case True
    with Suc.prems have "p = n" by simp
    with True show ?thesis by auto
  next
    case False
    with Suc.prems have "find_loc s n = int p" by simp
    from Suc.IH[OF this] False show ?thesis
      by (auto simp: less_Suc_eq)
  qed
qed

lemma find_loc_split:
  assumes "find_loc s (length s) = int p"
  shows "s = take p s @ CHR ''-'' # drop (Suc p) s" and "CHR ''-'' \<notin> set (drop (Suc p) s)"
proof -
  from find_loc_sound[OF assms] have p: "p < length s" and d: "s ! p = CHR ''-''"
    and n: "\<forall>j. p < j \<and> j < length s \<longrightarrow> s ! j \<noteq> CHR ''-''" by auto
  from p d show "s = take p s @ CHR ''-'' # drop (Suc p) s"
    using id_take_nth_drop[of p s] by simp
  show "CHR ''-'' \<notin> set (drop (Suc p) s)"
  proof
    assume "CHR ''-'' \<in> set (drop (Suc p) s)"
    then obtain i where i: "i < length (drop (Suc p) s)" and e: "drop (Suc p) s ! i = CHR ''-''"
      by (auto simp: in_set_conv_nth)
    from i have "Suc p + i < length s" by simp
    moreover from e i have "s ! (Suc p + i) = CHR ''-''" by simp
    ultimately show False using n by auto
  qed
qed

lemma advance_no_exit: "advance es item choice \<noteq> Inl (Exit k)"
  by (induction es item choice rule: advance.induct) auto

lemma request_no_exit: "fst (request env entries w) \<noteq> Inl (Exit k)"
  by (simp add: request_def split: list.splits)

lemma resolve_fallback:
  assumes "index_lookup_pkgname env spec = Inr (Some [])"
      and "find_loc spec (length spec) = int p" and "0 < p"
  shows "resolve env spec = requery env spec p"
  using assms by (simp add: resolve_def lookupIndex_def)

lemma install_after_match_no_exit:
  "install env spec w = Some (Inl (Exit k), w') \<Longrightarrow> resolve env spec = Inr (Some (e # es)) \<Longrightarrow> False"
proof (cases es)
  case Nil
  assume a: "install env spec w = Some (Inl (Exit k), w')" and r: "resolve env spec = Inr (Some (e # es))"
  from a r Nil have "request env [e] w = (Inl (Exit k), w')" by (simp add: install_def)
  with request_no_exit[of env "[e]" w k] show False by simp
next
  case (Cons e' es')
  assume a: "install env spec w = Some (Inl (Exit k), w')" and r: "resolve env spec = Inr (Some (e # es))"
  show False
  proof (cases "select_entry (e # e' # es') w")
    case None
    with a r Cons show False by (simp add: install_def)
  next
    case (Some x)
    obtain sel w1 where x: "x = (sel, w1)" by (cases x)
    show False
    proof (cases sel)
      case (Inl h)
      with a r Cons Some x have h: "h = Exit k" by (simp add: install_def)
      from Some x Inl obtain c where "advance (e # e' # es') 0 c = Inl h"
        by (auto simp: select_entry_def split: option.splits)
      with h advance_no_exit show False by blast
    next
      case (Inr entries)
      with a r Cons Some x have "request env entries w1 = (Inl (Exit k), w')"
        by (simp add: install_def)
      with request_no_exit[of env entries w1 k] show False by simp
    qed
  qed
qed

text \<open>
  C5.  When the verbatim lookup of a specifier returns no entry and its last \<^verbatim>\<open>'-'\<close> is
  at a position \<open>p > 0\<close>, the specifier is the candidate name \<open>take p spec\<close>, the hyphen and
  the embedded version \<open>drop (Suc p) spec\<close>, which holds no hyphen; the index is asked again
  for the candidate name, and with \<open>e\<close> the first entry it returns, \<^verbatim>\<open>install\<close> ends with
  "not found" (\<^verbatim>\<open>errx(4, ...)\<close>) exactly when the version of \<open>e\<close> differs from the embedded
  version.  When they are equal and \<open>e\<close> is the only entry, \<open>e\<close> is requested from the
  installer and its result returned.  The witness runs \<^verbatim>\<open>foo-1.2\<close> against an index
  holding \<^verbatim>\<open>foo\<close> 1.2, and against one holding only \<^verbatim>\<open>foo\<close> 1.3.
\<close>

theorem install_version_suffix_fallback:
  assumes "index_lookup_pkgname env spec = Inr (Some [])"
      and "find_loc spec (length spec) = int p" and "0 < p"
      and "index_lookup_pkgname env (take p spec) = Inr (Some (e # es))"
      and "ie_version e = Some ver"
  shows "spec = take p spec @ CHR ''-'' # drop (Suc p) spec
       \<and> CHR ''-'' \<notin> set (drop (Suc p) spec)
       \<and> ((\<exists>w'. install env spec w = Some (Inl (Exit 4), w')) \<longleftrightarrow> ver \<noteq> drop (Suc p) spec)
       \<and> (ver = drop (Suc p) spec \<and> es = [] \<longrightarrow>
            install env spec w =
              Some (Inr (install_depends env (pkgname e) (Some ver)),
                    w\<lparr>requests := requests w @ [(pkgname e, Some ver)]\<rparr>))"
proof -
  have r: "resolve env spec = requery env spec p"
    by (rule resolve_fallback[OF assms(1-3)])
  have q: "requery env spec p =
             (if drop (Suc p) spec \<noteq> ver then Inl (Exit 4) else Inr (Some (e # es)))"
    using assms(4,5) by (simp add: requery_def lookupIndex_def)
  have fail: "ver \<noteq> drop (Suc p) spec \<Longrightarrow> install env spec w = Some (Inl (Exit 4), w)"
    using r q by (auto simp: install_def)
  have ok: "ver = drop (Suc p) spec \<Longrightarrow> resolve env spec = Inr (Some (e # es))"
    using r q by simp
  have iff: "(\<exists>w'. install env spec w = Some (Inl (Exit 4), w')) \<longleftrightarrow> ver \<noteq> drop (Suc p) spec"
    using fail ok install_after_match_no_exit[of env spec w 4 _ e es] by blast
  have one: "ver = drop (Suc p) spec \<and> es = [] \<longrightarrow>
            install env spec w =
              Some (Inr (install_depends env (pkgname e) (Some ver)),
                    w\<lparr>requests := requests w @ [(pkgname e, Some ver)]\<rparr>)"
    using ok assms(5) by (auto simp: install_def request_def)
  from find_loc_split[OF assms(2)] iff one show ?thesis by blast
qed

theorem install_version_suffix_fallback_witness:
  "install (index_of [foo_entry ''1.2'']) ''foo-1.2'' (world0 [])
     = Some (Inr 0, (world0 [])\<lparr>requests := [(''foo'', Some ''1.2'')]\<rparr>)
   \<and> install (index_of [foo_entry ''1.3'']) ''foo-1.2'' (world0 []) = Some (Inl (Exit 4), world0 [])"
proof -
  have f: "find_loc ''foo-1.2'' (length ''foo-1.2'') = int 3"
    by (simp add: numeral_eq_Suc)
  have a: "install (index_of [foo_entry ''1.2'']) ''foo-1.2'' (world0 [])
            = Some (Inr 0, (world0 [])\<lparr>requests := [(''foo'', Some ''1.2'')]\<rparr>)"
    using install_version_suffix_fallback[of "index_of [foo_entry ''1.2'']" "''foo-1.2''" 3
        "foo_entry ''1.2''" "[]" "''1.2''" "world0 []"] f
    by (simp add: index_of_def foo_entry_def world0_def)
  have "\<exists>w'. install (index_of [foo_entry ''1.3'']) ''foo-1.2'' (world0 []) = Some (Inl (Exit 4), w')"
    using install_version_suffix_fallback[of "index_of [foo_entry ''1.3'']" "''foo-1.2''" 3
        "foo_entry ''1.3''" "[]" "''1.3''" "world0 []"] f
    by (simp add: index_of_def foo_entry_def)
  moreover have "\<And>w'. install (index_of [foo_entry ''1.3'']) ''foo-1.2'' (world0 []) = Some (Inl (Exit 4), w')
        \<Longrightarrow> w' = world0 []"
    by (auto simp: install_def resolve_def requery_def lookupIndex_def index_of_def foo_entry_def
        numeral_eq_Suc split: if_splits)
  ultimately have "install (index_of [foo_entry ''1.3'']) ''foo-1.2'' (world0 []) = Some (Inl (Exit 4), world0 [])"
    by blast
  with a show ?thesis by simp
qed

text \<open>
  C10.  When the verbatim lookup returns no entry, the last hyphen is at \<open>p > 0\<close> and the
  second lookup returns no entry either, line 608 reads the version of the first
  element of the empty vector: the run ends in a \<^verbatim>\<open>NULL\<close> dereference inside the fallback,
  before the check of line 615 (which would have ended it with "not found", status 4).
\<close>

theorem install_requery_empty_dereferences:
  assumes "index_lookup_pkgname env spec = Inr (Some [])"
      and "find_loc spec (length spec) = int p" and "0 < p"
      and "index_lookup_pkgname env (take p spec) = Inr (Some [])"
  shows "requery env spec p = Inl NullDeref \<and> install env spec w = Some (Inl NullDeref, w)"
proof -
  have q: "requery env spec p = Inl NullDeref"
    using assms(4) by (simp add: requery_def lookupIndex_def)
  with resolve_fallback[OF assms(1-3)] show ?thesis
    by (simp add: install_def)
qed

theorem install_requery_empty_dereferences_witness:
  "install (index_of [foo_entry ''1.2'']) ''bar-1.2'' (world0 []) = Some (Inl NullDeref, world0 [])"
proof -
  have f: "find_loc ''bar-1.2'' (length ''bar-1.2'') = int 3"
    by (simp add: numeral_eq_Suc)
  show ?thesis
    using install_requery_empty_dereferences[of "index_of [foo_entry ''1.2'']" "''bar-1.2''" 3 "world0 []"] f
    by (simp add: index_of_def)
qed

subsection \<open>The prompt\<close>

lemma read_choice_accept:
  "stdin w = Num k # rest \<Longrightarrow> 0 \<le> k \<Longrightarrow> k \<le> item \<Longrightarrow>
     read_choice item w = Some (k, w\<lparr>stdin := rest\<rparr>)"
  by (subst read_choice.simps) simp

lemma read_choice_reject:
  "stdin w = Num k # rest \<Longrightarrow> k < 0 \<or> item < k \<Longrightarrow>
     read_choice item w = read_choice item (w\<lparr>stdin := rest, reprompts := reprompts w + 1\<rparr>)"
  by (subst read_choice.simps) auto

lemma read_choice_returns:
  "read_choice item w = Some y \<Longrightarrow> \<exists>k rest. stdin w = Num k # rest"
proof (induction rule: read_choice.raw_induct[rotated 1, consumes 1])
  case (1 f item w y)
  show ?case
  proof (cases "stdin w")
    case Nil
    with 1(2) have "f item (w\<lparr>stdin := [], reprompts := reprompts w + 1\<rparr>) = Some y"
      by simp
    from 1(1)[OF this] show ?thesis by simp
  next
    case (Cons t rest)
    show ?thesis
    proof (cases t)
      case (Num k)
      with Cons show ?thesis by simp
    next
      case Junk
      with Cons 1(2)
      have "f item (w\<lparr>stdin := Junk # rest, reprompts := reprompts w + 1\<rparr>) = Some y"
        by simp
      from 1(1)[OF this] show ?thesis by simp
    qed
  qed
qed

lemma read_choice_never_ends:
  "stdin w = [] \<or> stdin w = Junk # rest \<Longrightarrow> read_choice item w = None"
  using read_choice_returns[of item w] by (cases "read_choice item w") auto

lemma advance_drop:
  "k \<le> length es \<Longrightarrow> advance es item (item + int k) = Inr (drop k es)"
proof (induction es arbitrary: item k)
  case Nil
  then show ?case by simp
next
  case (Cons e es)
  show ?case
  proof (cases k)
    case 0
    then show ?thesis by simp
  next
    case (Suc j)
    with Cons.prems have "j \<le> length es" by simp
    from Cons.IH[OF this, of "item + 1"] Suc show ?thesis by (simp add: add.assoc)
  qed
qed

lemma install_many:
  assumes "index_lookup_pkgname env spec = Inr (Some es)" and "2 \<le> length es"
  shows "install env spec w =
           (case select_entry es w of
              None \<Rightarrow> None
            | Some (Inl h, w') \<Rightarrow> Some (Inl h, w')
            | Some (Inr entries, w') \<Rightarrow> Some (request env entries w'))"
proof -
  from assms(2) obtain e e' es' where es: "es = e # e' # es'"
    by (cases es; cases "tl es") auto
  with assms(1) have "resolve env spec = Inr (Some (e # e' # es'))"
    by (simp add: resolve_def lookupIndex_def)
  with es show ?thesis by (simp add: install_def)
qed

text \<open>
  C3.  The claim is that the prompt accepts exactly the values of \<open>[0, N)\<close> and asks again
  on \<open>N\<close>.  Line 627 rejects \<^verbatim>\<open>choice > item\<close> with \<^verbatim>\<open>item\<close> equal to \<open>N\<close>, so the value \<open>N\<close>
  leaves the loop; lines 631-636 then move \<^verbatim>\<open>indexEntry\<close> to the terminator of the vector,
  and line 639 dereferences it.
\<close>

theorem install_choice_past_the_end:
  assumes "index_lookup_pkgname env spec = Inr (Some es)" and "2 \<le> length es"
      and "stdin w = Num (int (length es)) # rest"
  shows "install env spec w = Some (Inl NullDeref, w\<lparr>menus := menus w + 1, stdin := rest\<rparr>)"
proof -
  have "read_choice (int (length es)) (w\<lparr>menus := menus w + 1\<rparr>)
          = Some (int (length es), w\<lparr>menus := menus w + 1, stdin := rest\<rparr>)"
    using read_choice_accept[of "w\<lparr>menus := menus w + 1\<rparr>" "int (length es)" rest "int (length es)"] assms(3)
    by simp
  moreover have "advance es 0 (int (length es)) = Inr []"
    using advance_drop[of "length es" es 0] by simp
  ultimately have "select_entry es w = Some (Inr [], w\<lparr>menus := menus w + 1, stdin := rest\<rparr>)"
    by (simp add: select_entry_def)
  with install_many[OF assms(1,2), of w] show ?thesis
    by (simp add: request_def)
qed

theorem install_choice_past_the_end_witness:
  "install (index_of [foo_entry ''1.2'', foo_entry ''1.3'']) ''foo'' (world0 [Num 2])
     = Some (Inl NullDeref, (world0 [])\<lparr>menus := 1\<rparr>)"
  using install_choice_past_the_end[of "index_of [foo_entry ''1.2'', foo_entry ''1.3'']" "''foo''"
      "[foo_entry ''1.2'', foo_entry ''1.3'']" "world0 [Num 2]" "[]"]
  by (simp add: index_of_def world0_def)

text \<open>
  What does hold of the prompt: a value \<open>k < N\<close> selects the \<open>k\<close>-th entry of the lookup
  (\<open>install_choice_in_range\<close>), a negative value or one above \<open>N\<close> asks again
  (\<open>read_choice_reject\<close>), and on text that is not a number, or at the end of the input,
  the loop never ends (\<open>read_choice_never_ends\<close>), since \<^verbatim>\<open>scanf\<close> leaves the text in
  the input.
\<close>

lemma install_choice_in_range:
  assumes "index_lookup_pkgname env spec = Inr (Some es)" and "2 \<le> length es"
      and "stdin w = Num (int k) # rest" and "k < length es"
  shows "install env spec w =
           Some (Inr (install_depends env (pkgname (es ! k)) (ie_version (es ! k))),
                 w\<lparr>menus := menus w + 1, stdin := rest,
                   requests := requests w @ [(pkgname (es ! k), ie_version (es ! k))]\<rparr>)"
proof -
  have "read_choice (int (length es)) (w\<lparr>menus := menus w + 1\<rparr>)
          = Some (int k, w\<lparr>menus := menus w + 1, stdin := rest\<rparr>)"
    using read_choice_accept[of "w\<lparr>menus := menus w + 1\<rparr>" "int k" rest "int (length es)"] assms(3,4)
    by simp
  moreover have "advance es 0 (int k) = Inr (drop k es)"
    using advance_drop[of k es 0] assms(4) by simp
  ultimately have "select_entry es w = Some (Inr (drop k es), w\<lparr>menus := menus w + 1, stdin := rest\<rparr>)"
    by (simp add: select_entry_def)
  moreover from assms(4) have "drop k es = es ! k # drop (Suc k) es"
    by (simp add: Cons_nth_drop_Suc)
  ultimately show ?thesis
    using install_many[OF assms(1,2), of w] by (simp add: request_def)
qed

section \<open>Properties of the batch commands\<close>

lemma install_foo_returns_0:
  "install (index_of [foo_entry ''1.2'']) ''foo'' w
     = Some (Inr 0, w\<lparr>requests := requests w @ [(''foo'', Some ''1.2'')]\<rparr>)"
  by (simp add: install_def resolve_def lookupIndex_def request_def index_of_def foo_entry_def)

lemma batch_append:
  "batch f (as @ bs) rc0 w =
     (case batch f as rc0 w of
        None \<Rightarrow> None
      | Some (Inl h, w') \<Rightarrow> Some (Inl h, w')
      | Some (Inr rc, w') \<Rightarrow> batch f bs rc w')"
proof (induction as arbitrary: rc0 w)
  case Nil
  show ?case by simp
next
  case (Cons a as)
  show ?case
  proof (cases "f a w")
    case None
    then show ?thesis by simp
  next
    case (Some x)
    obtain r w1 where x: "x = (r, w1)" by (cases x)
    show ?thesis
    proof (cases r)
      case (Inl h)
      with Some x show ?thesis by simp
    next
      case (Inr t)
      with Some x Cons.IH[of "if t \<noteq> 0 then t else rc0" w1] show ?thesis by simp
    qed
  qed
qed

lemma batch_codes:
  "length (codes f args w) = length args \<Longrightarrow>
     \<exists>w'. batch f args rc0 w = Some (Inr (last (rc0 # filter (\<lambda>t. t \<noteq> 0) (codes f args w))), w')"
proof (induction args arbitrary: rc0 w)
  case Nil
  show ?case by simp
next
  case (Cons a as)
  from Cons.prems obtain t w1 where f: "f a w = Some (Inr t, w1)"
    by (auto split: option.splits sum.splits)
  with Cons.prems have "length (codes f as w1) = length as" by simp
  from Cons.IH[OF this, of "if t \<noteq> 0 then t else rc0"]
  obtain w' where "batch f as (if t \<noteq> 0 then t else rc0) w1 =
      Some (Inr (last ((if t \<noteq> 0 then t else rc0) # filter (\<lambda>t. t \<noteq> 0) (codes f as w1))), w')"
    by auto
  with f show ?case by auto
qed

lemma install_not_found:
  assumes "index_lookup_pkgname env spec = Inr (Some [])" and "find_loc spec (length spec) \<le> 0"
  shows "install env spec w = Some (Inl (Exit 4), w)"
  using assms by (simp add: install_def resolve_def lookupIndex_def)

lemma install_bar_not_found:
  "install (index_of [foo_entry ''1.2'']) ''bar'' w = Some (Inl (Exit 4), w)"
  by (rule install_not_found) (simp_all add: index_of_def numeral_eq_Suc)

text \<open>
  C4, as the code has it.  A specifier that is not found makes \<^verbatim>\<open>install\<close> call
  \<^verbatim>\<open>errx(4, ...)\<close>: when the specifiers before it returned, the process exits with status 4
  in the state that call left, whatever specifiers follow; none of them is processed.
  When every call of the batch returns, every specifier is processed and the exit
  status is the last result code that is not 0, or \<^verbatim>\<open>MPORT_ERR_FATAL\<close> when there is none.
\<close>

theorem install_batch_not_found_exits:
  assumes "load \<noteq> LoadFailed"
  shows "(batch (install env) as err_fatal w = Some (Inr rc, w1)
           \<and> install env a w1 = Some (Inl (Exit 4), w2)
          \<longrightarrow> main_install err_fatal env load (as @ a # bs) w = Some (Exit 4, w2))
       \<and> (args \<noteq> [] \<and> length (codes (install env) args w) = length args
          \<longrightarrow> (\<exists>w'. main_install err_fatal env load args w =
                  Some (Exit (last (err_fatal # filter (\<lambda>t. t \<noteq> 0) (codes (install env) args w))), w')))"
proof (intro conjI impI)
  from assms have l: "loadIndex load = None" by (cases load) (simp_all add: loadIndex_def)
  {
    assume h: "batch (install env) as err_fatal w = Some (Inr rc, w1)
           \<and> install env a w1 = Some (Inl (Exit 4), w2)"
    then have "batch (install env) (as @ a # bs) err_fatal w = Some (Inl (Exit 4), w2)"
      by (simp add: batch_append)
    with l show "main_install err_fatal env load (as @ a # bs) w = Some (Exit 4, w2)"
      by (simp add: main_install_def run_batch_def)
  }
  {
    assume h: "args \<noteq> [] \<and> length (codes (install env) args w) = length args"
    with batch_codes[of "install env" args w err_fatal]
    obtain w' where "batch (install env) args err_fatal w =
        Some (Inr (last (err_fatal # filter (\<lambda>t. t \<noteq> 0) (codes (install env) args w))), w')"
      by auto
    with l h show "\<exists>w'. main_install err_fatal env load args w =
                  Some (Exit (last (err_fatal # filter (\<lambda>t. t \<noteq> 0) (codes (install env) args w))), w')"
      by (simp add: main_install_def run_batch_def)
  }
qed

theorem install_batch_not_found_exits_witness:
  "batch (install (index_of [foo_entry ''1.2''])) [''foo''] 1 (world0 [])
     = Some (Inr 1, (world0 [])\<lparr>requests := [(''foo'', Some ''1.2'')]\<rparr>)
   \<and> install (index_of [foo_entry ''1.2'']) ''bar'' ((world0 [])\<lparr>requests := [(''foo'', Some ''1.2'')]\<rparr>)
     = Some (Inl (Exit 4), (world0 [])\<lparr>requests := [(''foo'', Some ''1.2'')]\<rparr>)
   \<and> main_install 1 (index_of [foo_entry ''1.2'']) LoadOk [''foo'', ''bar'', ''foo''] (world0 [])
     = Some (Exit 4, (world0 [])\<lparr>requests := [(''foo'', Some ''1.2'')]\<rparr>)
   \<and> codes (install (index_of [foo_entry ''1.2''])) [''foo''] (world0 []) = [0]
   \<and> (\<exists>w'. main_install 1 (index_of [foo_entry ''1.2'']) LoadOk [''foo''] (world0 []) = Some (Exit 1, w'))"
  using install_batch_not_found_exits[where load = LoadOk and env = "index_of [foo_entry ''1.2'']"
      and as = "[''foo'']" and err_fatal = 1 and w = "world0 []" and rc = 1
      and ?w1.0 = "(world0 [])\<lparr>requests := [(''foo'', Some ''1.2'')]\<rparr>" and a = "''bar''"
      and ?w2.0 = "(world0 [])\<lparr>requests := [(''foo'', Some ''1.2'')]\<rparr>" and bs = "[''foo'']"
      and args = "[''foo'']"]
  by (simp add: install_foo_returns_0 install_bar_not_found world0_def)

text \<open>
  C4, as stated, fails: in the batch \<^verbatim>\<open>bar foo\<close> against an index that holds only
  \<^verbatim>\<open>foo\<close>, the process exits with 4 at \<^verbatim>\<open>bar\<close> and no installation of \<^verbatim>\<open>foo\<close> is
  requested, though \<^verbatim>\<open>install\<close> of \<^verbatim>\<open>foo\<close> alone requests it and returns 0.
\<close>

theorem install_batch_not_found_counterexample:
  "main_install 1 (index_of [foo_entry ''1.2'']) LoadOk [''bar'', ''foo''] (world0 [])
     = Some (Exit 4, world0 [])
   \<and> install (index_of [foo_entry ''1.2'']) ''foo'' (world0 [])
     = Some (Inr 0, (world0 [])\<lparr>requests := [(''foo'', Some ''1.2'')]\<rparr>)"
  by (simp add: main_install_def run_batch_def loadIndex_def install_foo_returns_0
      install_bar_not_found world0_def)

lemma run_batch_all_zero:
  assumes "args \<noteq> []" and "codes f args w = replicate (length args) 0"
  shows "\<exists>w'. run_batch err_fatal f args w = Some (Exit err_fatal, w')"
proof -
  from assms(2) have "length (codes f args w) = length args" by simp
  from batch_codes[OF this, of err_fatal] assms(2)
  obtain w' where "batch f args err_fatal w = Some (Inr err_fatal, w')" by auto
  with assms(1) show ?thesis by (simp add: run_batch_def)
qed

text \<open>
  C9.  For \<^verbatim>\<open>install\<close>, \<^verbatim>\<open>delete\<close> and \<^verbatim>\<open>update\<close> with at least one argument: when every
  call of the batch returns 0 (and the index loads), the process exits with the
  initial value of \<^verbatim>\<open>resultCode\<close>, \<^verbatim>\<open>MPORT_ERR_FATAL\<close>, not with 0.
\<close>

theorem successful_batch_exits_with_err_fatal:
  assumes "args \<noteq> []"
  shows "(codes (install env) args w = replicate (length args) 0 \<and> load \<noteq> LoadFailed
            \<longrightarrow> (\<exists>w'. main_install err_fatal env load args w = Some (Exit err_fatal, w')))
       \<and> (codes (returning (delete ops)) args s = replicate (length args) 0
            \<longrightarrow> (\<exists>s'. main_delete err_fatal ops args s = Some (Exit err_fatal, s')))
       \<and> (codes (returning update) args u = replicate (length args) 0 \<and> load \<noteq> LoadFailed
            \<longrightarrow> (\<exists>u'. main_update err_fatal update load args u = Some (Exit err_fatal, u')))"
proof (intro conjI impI)
  assume h: "codes (install env) args w = replicate (length args) 0 \<and> load \<noteq> LoadFailed"
  then have "loadIndex load = None" by (cases load) (simp_all add: loadIndex_def)
  with assms run_batch_all_zero[OF assms, of "install env" w err_fatal] h
  show "\<exists>w'. main_install err_fatal env load args w = Some (Exit err_fatal, w')"
    by (simp add: main_install_def)
next
  assume "codes (returning (delete ops)) args s = replicate (length args) 0"
  from run_batch_all_zero[OF assms this, of err_fatal]
  show "\<exists>s'. main_delete err_fatal ops args s = Some (Exit err_fatal, s')"
    by (simp add: main_delete_def)
next
  assume h: "codes (returning update) args u = replicate (length args) 0 \<and> load \<noteq> LoadFailed"
  then have l: "loadIndex load = None" by (cases load) (simp_all add: loadIndex_def)
  from h run_batch_all_zero[OF assms, of "returning update" u err_fatal] l assms
  show "\<exists>u'. main_update err_fatal update load args u = Some (Exit err_fatal, u')"
    by (simp add: main_update_def)
qed

theorem successful_batch_exits_with_err_fatal_witness:
  "codes (install (index_of [foo_entry ''1.2''])) [''foo'', ''foo''] (world0 []) = [0, 0]
   \<and> codes (returning (delete mport_store)) [''foo'', ''foo''] [\<lparr>meta = pkg_foo, depends = []\<rparr>] = [0, 0]
   \<and> codes (returning (\<lambda>a u. (0, u))) [''foo'', ''foo''] () = [0, 0]
   \<and> (\<exists>w'. main_install 1 (index_of [foo_entry ''1.2'']) LoadOk [''foo'', ''foo''] (world0 []) = Some (Exit 1, w'))
   \<and> (\<exists>s'. main_delete 1 mport_store [''foo'', ''foo''] [\<lparr>meta = pkg_foo, depends = []\<rparr>] = Some (Exit 1, s'))
   \<and> (\<exists>u'. main_update 1 (\<lambda>a u. (0, u)) LoadOk [''foo'', ''foo''] () = Some (Exit 1, u'))"
  using successful_batch_exits_with_err_fatal[where args = "[''foo'', ''foo'']"
      and env = "index_of [foo_entry ''1.2'']" and load = LoadOk and err_fatal = 1 and w = "world0 []"
      and ops = "mport_store" and update = "\<lambda>a u. (0, u)" and s = "[\<lparr>meta = pkg_foo, depends = []\<rparr>]" and u = "()"]
  by (simp add: install_foo_returns_0 returning_def delete_def mport_store_def store_delete_def pkg_foo_def)

section \<open>Properties of the bulk remover\<close>

subsection \<open>The loop body and the pass, for any store\<close>

lemma pass_append: "pass ops (xs @ ys) st = pass ops ys (pass ops xs st)"
  by (induction xs arbitrary: st) simp_all


lemma examine_skip_mono: "skip st \<le> skip (examine ops p st)"
  by (simp add: examine_def split: answer.splits option.splits prod.splits)

lemma pass_skip_mono: "skip st \<le> skip (pass ops ps st)"
proof (induction ps arbitrary: st)
  case Nil
  show ?case by simp
next
  case (Cons p ps)
  have "skip st \<le> skip (examine ops p st)" by (rule examine_skip_mono)
  also have "\<dots> \<le> skip (pass ops ps (examine ops p st))" by (rule Cons.IH)
  finally show ?case by simp
qed

subsection \<open>The loop body on the package store\<close>

lemma examine_store:
  "examine mport_store p st =
     (if dependents (store st) (name p) = []
      then (case store_delete (name p) (store st) of
              (rc, s') \<Rightarrow>
                st\<lparr>store := s',
                   errors := (if rc \<noteq> 0 then errors st + 1 else errors st),
                   total := total st + 1,
                   attempts := attempts st @ [name p]\<rparr>)
      else st\<lparr>skip := skip st + 1\<rparr>)"
  by (simp add: examine_def mport_store_def store_updepends_def delete_def)

lemma store_delete_filter: "\<exists>Q. snd (store_delete n s) = filter Q s"
proof (cases "list_ex (\<lambda>q. name (meta q) = n \<and> locked (meta q)) s")
  case True
  then have "snd (store_delete n s) = filter (\<lambda>q. True) s" by (simp add: store_delete_def)
  then show ?thesis by blast
next
  case False
  then have "snd (store_delete n s) = filter (\<lambda>q. name (meta q) \<noteq> n) s"
    by (simp add: store_delete_def)
  then show ?thesis by blast
qed

lemma examine_store_filter: "\<exists>Q. store (examine mport_store p st) = filter Q (store st)"
proof (cases "dependents (store st) (name p) = []")
  case True
  obtain rc s' where d: "store_delete (name p) (store st) = (rc, s')"
    by (cases "store_delete (name p) (store st)")
  from store_delete_filter[of "name p" "store st"] d obtain Q where "s' = filter Q (store st)"
    by auto
  with True d show ?thesis by (auto simp: examine_store)
next
  case False
  then have "store (examine mport_store p st) = filter (\<lambda>q. True) (store st)"
    by (simp add: examine_store)
  then show ?thesis by blast
qed

lemma pass_store_filter: "\<exists>Q. store (pass mport_store ps st) = filter Q (store st)"
proof (induction ps arbitrary: st)
  case Nil
  have "store (pass mport_store [] st) = filter (\<lambda>q. True) (store st)" by simp
  then show ?case by blast
next
  case (Cons p ps)
  from examine_store_filter[of p st] obtain Q1
    where q1: "store (examine mport_store p st) = filter Q1 (store st)" by blast
  from Cons.IH[of "examine mport_store p st"] obtain Q2
    where "store (pass mport_store ps (examine mport_store p st))
             = filter Q2 (store (examine mport_store p st))" by blast
  with q1 have "store (pass mport_store (p # ps) st) = filter (\<lambda>q. Q1 q \<and> Q2 q) (store st)"
    by simp
  then show ?case by blast
qed

lemma pass_store_subset: "set (store (pass mport_store ps st)) \<subseteq> set (store st)"
  using pass_store_filter[of ps st] by auto

lemma dependents_subset:
  "set s' \<subseteq> set s \<Longrightarrow> dependents s n = [] \<Longrightarrow> dependents s' n = []"
  by (auto simp: dependents_def filter_empty_conv)

lemma examine_keeps_others:
  "q \<in> set (store st) \<Longrightarrow> name (meta q) \<noteq> name p \<Longrightarrow> q \<in> set (store (examine mport_store p st))"
  by (auto simp: examine_store store_delete_def split: prod.splits if_splits)

lemma pass_keeps_others:
  "q \<in> set (store st) \<Longrightarrow> name (meta q) \<notin> name ` set ps \<Longrightarrow>
     q \<in> set (store (pass mport_store ps st))"
proof (induction ps arbitrary: st)
  case Nil
  then show ?case by simp
next
  case (Cons p ps)
  from Cons.prems have "q \<in> set (store (examine mport_store p st))"
    by (intro examine_keeps_others) auto
  moreover from Cons.prems have "name (meta q) \<notin> name ` set ps" by simp
  ultimately show ?case using Cons.IH by simp
qed

lemma examine_deletes:
  assumes "dependents (store st) (name p) = []"
      and "\<not> list_ex (\<lambda>q. name (meta q) = name p \<and> locked (meta q)) (store st)"
  shows "name p \<notin> set (names (store (examine mport_store p st)))"
  using assms by (auto simp: examine_store store_delete_def names_def)

lemma names_subset: "set s' \<subseteq> set s \<Longrightarrow> set (names s') \<subseteq> set (names s)"
  by (auto simp: names_def)





lemma pass_deletes:
  assumes "dependents (store (pass mport_store pre st)) (name p) = []"
      and "\<not> list_ex (\<lambda>q. name (meta q) = name p \<and> locked (meta q)) (store st)"
  shows "name p \<notin> set (names (store (pass mport_store (pre @ p # post) st)))"
proof -
  let ?st1 = "pass mport_store pre st"
  have "\<not> list_ex (\<lambda>q. name (meta q) = name p \<and> locked (meta q)) (store ?st1)"
    using assms(2) pass_store_subset[of pre st] by (auto simp: list_ex_iff)
  with assms(1) have "name p \<notin> set (names (store (examine mport_store p ?st1)))"
    by (intro examine_deletes) auto
  moreover have "set (names (store (pass mport_store post (examine mport_store p ?st1))))
                   \<subseteq> set (names (store (examine mport_store p ?st1)))"
    by (intro names_subset pass_store_subset)
  ultimately show ?thesis by (auto simp: pass_append)
qed

lemma in_names: "r \<in> set s \<Longrightarrow> name (meta r) = n \<Longrightarrow> n \<in> set (names s)"
  by (auto simp: names_def)

subsection \<open>The counters\<close>

lemma examine_counts:
  assumes "total st = int (length (attempts st))" and "0 \<le> errors st" and "errors st \<le> total st"
  shows "total (examine ops p st) = int (length (attempts (examine ops p st)))
       \<and> 0 \<le> errors (examine ops p st) \<and> errors (examine ops p st) \<le> total (examine ops p st)"
  using assms by (simp add: examine_def split: answer.splits option.splits prod.splits)

lemma pass_counts:
  assumes "total st = int (length (attempts st))" and "0 \<le> errors st" and "errors st \<le> total st"
  shows "total (pass ops ps st) = int (length (attempts (pass ops ps st)))
       \<and> 0 \<le> errors (pass ops ps st) \<and> errors (pass ops ps st) \<le> total (pass ops ps st)"
  using assms
proof (induction ps arbitrary: st)
  case Nil
  then show ?case by simp
next
  case (Cons p ps)
  from examine_counts[OF Cons.prems, of ops p] Cons.IH[of "examine ops p st"]
  show ?case by simp
qed

lemma deleteAll_loop_counts:
  assumes "deleteAll_loop ops packs st = Some (r, Some (deleted, errored, tot), st')"
      and "total st = int (length (attempts st))" and "0 \<le> errors st" and "errors st \<le> total st"
  shows "deleted + errored = tot \<and> tot = int (length (attempts st')) \<and> 0 \<le> errored \<and> errored \<le> tot"
proof -
  have "deleteAll_loop ops packs st = Some y \<Longrightarrow>
          total st = int (length (attempts st)) \<and> 0 \<le> errors st \<and> errors st \<le> total st \<longrightarrow>
          (\<forall>r deleted errored tot st'. y = (r, Some (deleted, errored, tot), st') \<longrightarrow>
             deleted + errored = tot \<and> tot = int (length (attempts st')) \<and> 0 \<le> errored \<and> errored \<le> tot)"
    for y
  proof (induction rule: deleteAll_loop.raw_induct[rotated 1, consumes 1])
    case (1 f ops packs st y)
    let ?st1 = "pass ops packs (st\<lparr>skip := 0\<rparr>)"
    show ?case
    proof (intro impI)
      assume inv: "total st = int (length (attempts st)) \<and> 0 \<le> errors st \<and> errors st \<le> total st"
      then have inv1: "total ?st1 = int (length (attempts ?st1)) \<and> 0 \<le> errors ?st1
                        \<and> errors ?st1 \<le> total ?st1"
        using pass_counts[of "st\<lparr>skip := 0\<rparr>" ops packs] by simp
      show "\<forall>r deleted errored tot st'. y = (r, Some (deleted, errored, tot), st') \<longrightarrow>
             deleted + errored = tot \<and> tot = int (length (attempts st')) \<and> 0 \<le> errored \<and> errored \<le> tot"
      proof (cases "skip ?st1 = 0")
        case True
        with 1(2) have "y = (Inr 0, Some (total ?st1 - errors ?st1, errors ?st1, total ?st1), ?st1)"
          by (simp add: Let_def)
        with inv1 show ?thesis by auto
      next
        case False
        show ?thesis
        proof (cases "pkgmeta_list ops (store ?st1)")
          case NotOk
          with False 1(2) show ?thesis by (auto simp: Let_def)
        next
          case (Ok v)
          show ?thesis
          proof (cases v)
            case None
            with Ok False 1(2) show ?thesis by (auto simp: Let_def)
          next
            case (Some packs')
            with Ok False 1(2) have "f ops packs' ?st1 = Some y" by (simp add: Let_def)
            from 1(1)[OF this] inv1 show ?thesis by blast
          qed
        qed
      qed
    qed
  qed
  from this[OF assms(1)] assms(2-4) show ?thesis by blast
qed

lemma deleteAll_counts:
  assumes "deleteAll ops s = Some (r, Some (deleted, errored, tot), st')"
  shows "deleted + errored = tot \<and> tot = int (length (attempts st')) \<and> 0 \<le> errored \<and> errored \<le> tot"
proof (cases "pkgmeta_list ops s")
  case NotOk
  with assms show ?thesis by (simp add: deleteAll_def)
next
  case (Ok v)
  show ?thesis
  proof (cases v)
    case None
    with Ok assms show ?thesis by (simp add: deleteAll_def)
  next
    case (Some packs)
    with Ok assms have "deleteAll_loop ops packs (da_init s) = Some (r, Some (deleted, errored, tot), st')"
      by (simp add: deleteAll_def)
    from deleteAll_loop_counts[OF this] show ?thesis by (simp add: da_init_def)
  qed
qed

subsection \<open>Passes over a store without locked packages\<close>

lemma examine_unlocked_errors:
  "\<forall>q\<in>set (store st). \<not> locked (meta q) \<Longrightarrow> errors (examine mport_store p st) = errors st"
  by (auto simp: examine_store store_delete_def list_ex_iff)

lemma pass_unlocked_errors:
  "\<forall>q\<in>set (store st). \<not> locked (meta q) \<Longrightarrow> errors (pass mport_store ps st) = errors st"
proof (induction ps arbitrary: st)
  case Nil
  show ?case by simp
next
  case (Cons p ps)
  from examine_store_filter[of p st] Cons.prems
  have "\<forall>q\<in>set (store (examine mport_store p st)). \<not> locked (meta q)" by auto
  from Cons.IH[OF this] examine_unlocked_errors[OF Cons.prems, of p] show ?case by simp
qed

lemma pass_no_skip:
  assumes "\<forall>q\<in>set (store st). \<not> locked (meta q)"
      and "skip (pass mport_store ps st) = skip st"
  shows "\<forall>p\<in>set ps. name p \<notin> set (names (store (pass mport_store ps st)))"
  using assms
proof (induction ps arbitrary: st)
  case Nil
  show ?case by simp
next
  case (Cons p ps)
  let ?st1 = "examine mport_store p st"
  have m1: "skip st \<le> skip ?st1" by (rule examine_skip_mono)
  have m2: "skip ?st1 \<le> skip (pass mport_store ps ?st1)" by (rule pass_skip_mono)
  from Cons.prems(2) m1 m2 have e1: "skip ?st1 = skip st"
    and e2: "skip (pass mport_store ps ?st1) = skip ?st1" by simp_all
  from e1 have d: "dependents (store st) (name p) = []"
    by (auto simp: examine_store split: if_splits)
  from Cons.prems(1) have "\<not> list_ex (\<lambda>q. name (meta q) = name p \<and> locked (meta q)) (store st)"
    by (auto simp: list_ex_iff)
  with d have "name p \<notin> set (names (store ?st1))" by (rule examine_deletes)
  moreover have "set (names (store (pass mport_store ps ?st1))) \<subseteq> set (names (store ?st1))"
    by (intro names_subset pass_store_subset)
  ultimately have here: "name p \<notin> set (names (store (pass mport_store ps ?st1)))" by auto
  from examine_store_filter[of p st] Cons.prems(1)
  have "\<forall>q\<in>set (store ?st1). \<not> locked (meta q)" by auto
  from Cons.IH[OF this e2] here show ?case by simp
qed

lemma pass_skipped_nonempty:
  assumes "distinct (map name ps)"
      and "\<forall>p\<in>set ps. name p \<in> set (names (store st))"
      and "skip (pass mport_store ps st) \<noteq> skip st"
  shows "store (pass mport_store ps st) \<noteq> []"
  using assms
proof (induction ps arbitrary: st)
  case Nil
  then show ?case by simp
next
  case (Cons p ps)
  let ?st1 = "examine mport_store p st"
  from Cons.prems(1) have np: "name p \<notin> name ` set ps" and dist: "distinct (map name ps)"
    by auto
  show ?case
  proof (cases "dependents (store st) (name p) = []")
    case False
    then have s1: "store ?st1 = store st" by (simp add: examine_store)
    from Cons.prems(2) obtain r where r: "r \<in> set (store st)" "name (meta r) = name p"
      by (auto simp: names_def)
    with s1 np have "r \<in> set (store (pass mport_store ps ?st1))"
      by (intro pass_keeps_others) auto
    then show ?thesis by auto
  next
    case True
    then have "skip ?st1 = skip st" by (auto simp: examine_store split: prod.splits)
    with Cons.prems(3) have sk: "skip (pass mport_store ps ?st1) \<noteq> skip ?st1" by simp
    have "\<forall>p'\<in>set ps. name p' \<in> set (names (store ?st1))"
    proof
      fix p' assume p': "p' \<in> set ps"
      with Cons.prems(2) obtain r where r: "r \<in> set (store st)" "name (meta r) = name p'"
        by (auto simp: names_def)
      from p' np have "name p' \<noteq> name p" by (metis imageI)
      with r have "r \<in> set (store ?st1)" by (intro examine_keeps_others) auto
      with r show "name p' \<in> set (names (store ?st1))" by (intro in_names)
    qed
    from Cons.IH[OF dist this sk] show ?thesis by simp
  qed
qed

subsection \<open>Acyclic stores\<close>

lemma dep_edges_iff:
  "(a, d) \<in> set (dep_edges s) \<longleftrightarrow> (\<exists>q\<in>set s. name (meta q) = a \<and> d \<in> set (depends q))"
  by (auto simp: dep_edges_def)

lemma acyclic_store_subset:
  "acyclic_store s \<Longrightarrow> set s' \<subseteq> set s \<Longrightarrow> acyclic_store s'"
proof -
  assume a: "acyclic_store s" and sub: "set s' \<subseteq> set s"
  have "set (dep_edges s') \<subseteq> set (dep_edges s)"
  proof
    fix e assume e: "e \<in> set (dep_edges s')"
    obtain x d where xd: "e = (x, d)" by (cases e)
    with e obtain q where "q \<in> set s'" "name (meta q) = x" "d \<in> set (depends q)"
      by (auto simp: dep_edges_iff)
    with sub have "\<exists>q\<in>set s. name (meta q) = x \<and> d \<in> set (depends q)" by blast
    with xd show "e \<in> set (dep_edges s)" by (simp add: dep_edges_iff)
  qed
  with a show "acyclic_store s'"
    unfolding acyclic_store_def by (rule acyclic_subset)
qed

lemma exists_undepended:
  assumes "acyclic_store s" and "s \<noteq> []"
  shows "\<exists>q\<in>set s. dependents s (name (meta q)) = []"
proof -
  have "wf (set (dep_edges s))"
    using assms(1) by (simp add: acyclic_store_def finite_acyclic_wf)
  moreover from assms(2) obtain q0 where "q0 \<in> set s" by (cases s) auto
  then have "name (meta q0) \<in> set (names s)" by (simp add: names_def)
  ultimately obtain z where z: "z \<in> set (names s)"
    and min: "\<And>y. (y, z) \<in> set (dep_edges s) \<Longrightarrow> y \<notin> set (names s)"
    by (rule wfE_min) blast
  from z obtain q where q: "q \<in> set s" "name (meta q) = z" by (auto simp: names_def)
  have "dependents s z = []"
  proof (rule ccontr)
    assume "dependents s z \<noteq> []"
    then obtain r where r: "r \<in> set s" "z \<in> set (depends r)"
      by (auto simp: dependents_def filter_empty_conv)
    then have "(name (meta r), z) \<in> set (dep_edges s)" by (auto simp: dep_edges_iff)
    from min[OF this] r(1) show False by (simp add: names_def)
  qed
  with q show ?thesis by auto
qed

lemma pass_progress:
  assumes "acyclic_store s" and "s \<noteq> []" and "\<forall>q\<in>set s. \<not> locked (meta q)" and "store st = s"
  shows "length (store (pass mport_store (map meta s) st)) < length s"
proof -
  from exists_undepended[OF assms(1,2)] obtain q where q: "q \<in> set s"
    and d: "dependents s (name (meta q)) = []" by blast
  from q have "meta q \<in> set (map meta s)" by simp
  then obtain pre post where sp: "map meta s = pre @ meta q # post"
    by (auto dest: split_list)
  have "dependents (store (pass mport_store pre st)) (name (meta q)) = []"
    using d assms(4) pass_store_subset[of pre st] by (auto intro: dependents_subset)
  moreover have "\<not> list_ex (\<lambda>r. name (meta r) = name (meta q) \<and> locked (meta r)) (store st)"
    using assms(3,4) by (auto simp: list_ex_iff)
  ultimately have "name (meta q) \<notin> set (names (store (pass mport_store (pre @ meta q # post) st)))"
    by (rule pass_deletes)
  with sp have gone: "q \<notin> set (store (pass mport_store (map meta s) st))"
    by (auto simp: names_def)
  from pass_store_filter[of "map meta s" st] assms(4) obtain Q
    where Q: "store (pass mport_store (map meta s) st) = filter Q s" by auto
  with gone q have "\<not> Q q" by auto
  with q have "length (filter Q s) < length s" by (intro length_filter_less) auto
  with Q show ?thesis by simp
qed

lemma names_empty: "names s = [] \<longleftrightarrow> s = []"
  by (simp add: names_def)

lemma deleteAll_loop_acyclic:
  assumes "acyclic_store s" and "distinct (names s)" and "\<forall>q\<in>set s. \<not> locked (meta q)"
      and "s \<noteq> []" and "store st = s"
      and "total st = int (length (attempts st))" and "errors st = 0"
  shows "\<exists>st'. deleteAll_loop mport_store (map meta s) st
                 = Some (Inr 0, Some (total st', 0, total st'), st')
              \<and> store st' = [] \<and> total st' = int (length (attempts st'))"
  using assms
proof (induction "length s" arbitrary: s st rule: less_induct)
  case less
  let ?st0 = "st\<lparr>skip := 0\<rparr>"
  let ?st1 = "pass mport_store (map meta s) ?st0"
  from less.prems have s0: "store ?st0 = s" by simp
  have unlocked0: "\<forall>q\<in>set (store ?st0). \<not> locked (meta q)" using less.prems by simp
  have err1: "errors ?st1 = 0"
    using pass_unlocked_errors[OF unlocked0, of "map meta s"] less.prems by simp
  have tot1: "total ?st1 = int (length (attempts ?st1))"
    using pass_counts[of ?st0 mport_store "map meta s"] less.prems by simp
  have sub1: "set (store ?st1) \<subseteq> set s"
    using pass_store_subset[of "map meta s" ?st0] s0 by simp
  show ?case
  proof (cases "skip ?st1 = 0")
    case True
    then have "skip ?st1 = skip ?st0" by simp
    from pass_no_skip[OF unlocked0 this]
    have "\<forall>p\<in>set (map meta s). name p \<notin> set (names (store ?st1))" .
    moreover have "set (names (store ?st1)) \<subseteq> set (names s)"
      using sub1 by (rule names_subset)
    ultimately have none: "n \<notin> set (names (store ?st1))" for n
    proof -
      assume gone: "\<forall>p\<in>set (map meta s). name p \<notin> set (names (store ?st1))"
        and sub: "set (names (store ?st1)) \<subseteq> set (names s)"
      show "n \<notin> set (names (store ?st1))"
      proof
        assume n: "n \<in> set (names (store ?st1))"
        with sub have "n \<in> set (names s)" by auto
        then obtain q where q: "q \<in> set s" "name (meta q) = n" by (auto simp: names_def)
        then have "meta q \<in> set (map meta s)" by simp
        with gone have "name (meta q) \<notin> set (names (store ?st1))" by blast
        with q n show False by simp
      qed
    qed
    have empty: "store ?st1 = []"
    proof (cases "store ?st1")
      case Nil
      then show ?thesis .
    next
      case (Cons x xs)
      then have "name (meta x) \<in> set (names (store ?st1))" by (simp add: names_def)
      with none[of "name (meta x)"] show ?thesis by simp
    qed
    have "deleteAll_loop mport_store (map meta s) st
            = Some (Inr 0, Some (total ?st1 - errors ?st1, errors ?st1, total ?st1), ?st1)"
      using True by (subst deleteAll_loop.simps) (simp add: Let_def)
    with err1 empty tot1 show ?thesis by simp
  next
    case False
    let ?s1 = "store ?st1"
    have shorter: "length ?s1 < length s"
      using pass_progress[of s ?st0] less.prems by simp
    have "distinct (map name (map meta s))" using less.prems(2) by (simp add: names_def comp_def)
    moreover have "\<forall>p\<in>set (map meta s). name p \<in> set (names (store ?st0))"
      using s0 by (auto simp: names_def)
    moreover from False have "skip ?st1 \<noteq> skip ?st0" by simp
    ultimately have nonempty: "?s1 \<noteq> []" by (rule pass_skipped_nonempty)
    from pass_store_filter[of "map meta s" ?st0] s0 obtain Q where Q: "?s1 = filter Q s" by auto
    have acyc: "acyclic_store ?s1" using less.prems(1) sub1 by (rule acyclic_store_subset)
    have dist: "distinct (names ?s1)"
      using less.prems(2) unfolding Q names_def by (rule distinct_map_filter)
    have unl: "\<forall>q\<in>set ?s1. \<not> locked (meta q)" using less.prems(3) sub1 by auto
    from less.hyps[OF shorter acyc dist unl nonempty refl tot1 err1]
    obtain st' where st': "deleteAll_loop mport_store (map meta ?s1) ?st1
                 = Some (Inr 0, Some (total st', 0, total st'), st')"
      "store st' = []" "total st' = int (length (attempts st'))" by blast
    have "pkgmeta_list mport_store ?s1 = Ok (Some (map meta ?s1))"
      using nonempty by (simp add: mport_store_def store_list_def)
    with False have "deleteAll_loop mport_store (map meta s) st
                       = deleteAll_loop mport_store (map meta ?s1) ?st1"
      by (subst deleteAll_loop.simps) (simp add: Let_def)
    with st' show ?thesis by auto
  qed
qed

text \<open>
  C6, as the code has it.  On a package store that is not empty, with an acyclic
  dependency relation, distinct names and no locked package (so that no deletion
  fails), \<^verbatim>\<open>deleteAll\<close> terminates, returns 0 and leaves the store empty, and the summary
  it prints has no error and a total equal to the number of deletions attempted over
  all passes.  For any store and any library: whenever \<^verbatim>\<open>deleteAll\<close> prints its summary,
  deleted + errors = total, and total is the number of deletions attempted over all
  passes.
\<close>

theorem deleteAll_acyclic_empties_store:
  "(acyclic_store s \<and> distinct (names s) \<and> (\<forall>q\<in>set s. \<not> locked (meta q)) \<and> s \<noteq> []
      \<longrightarrow> (\<exists>tot st'. deleteAll mport_store s = Some (Inr 0, Some (tot, 0, tot), st')
                      \<and> store st' = [] \<and> tot = int (length (attempts st'))))
   \<and> (deleteAll ops s0 = Some (r, Some (deleted, errored, tot'), st'')
      \<longrightarrow> deleted + errored = tot' \<and> tot' = int (length (attempts st''))
          \<and> 0 \<le> errored \<and> errored \<le> tot')"
proof -
  have a: "\<exists>tot st'. deleteAll mport_store s = Some (Inr 0, Some (tot, 0, tot), st')
                      \<and> store st' = [] \<and> tot = int (length (attempts st'))"
    if h: "acyclic_store s \<and> distinct (names s) \<and> (\<forall>q\<in>set s. \<not> locked (meta q)) \<and> s \<noteq> []"
  proof -
    from h have "deleteAll mport_store s = deleteAll_loop mport_store (map meta s) (da_init s)"
      by (simp add: deleteAll_def mport_store_def store_list_def)
    moreover from h have "\<exists>st'. deleteAll_loop mport_store (map meta s) (da_init s)
                   = Some (Inr 0, Some (total st', 0, total st'), st')
                \<and> store st' = [] \<and> total st' = int (length (attempts st'))"
      by (intro deleteAll_loop_acyclic) (simp_all add: da_init_def)
    ultimately show ?thesis by auto
  qed
  have b: "deleted + errored = tot' \<and> tot' = int (length (attempts st''))
          \<and> 0 \<le> errored \<and> errored \<le> tot'"
    if "deleteAll ops s0 = Some (r, Some (deleted, errored, tot'), st'')"
    using deleteAll_counts[OF that] by simp
  from a b show ?thesis by blast
qed

lemma acyclic_no_edges: "acyclic {}"
  by (simp add: acyclic_def)

lemma acyclic_store_AB: "acyclic_store store_AB"
  by (simp add: acyclic_store_def store_AB_def dep_edges_def inst_def pkg_def acyclic_insert
      acyclic_no_edges)

text \<open>
  The scenario of A and B, where B requires A: B is removed in the first pass, A in the
  second, and the summary is 2 deleted, 0 errors, 2 total.
\<close>

lemma deleteAll_store_AB:
  "deleteAll mport_store store_AB
     = Some (Inr 0, Some (2, 0, 2),
             \<lparr>store = [], total = 2, errors = 0, skip = 0, attempts = [''B'', ''A'']\<rparr>)"
  apply (simp add: deleteAll_def mport_store_def store_list_def store_AB_def)
  apply (subst deleteAll_loop.simps)
  apply (simp add: examine_def delete_def store_updepends_def store_delete_def dependents_def
      store_list_def da_init_def inst_def pkg_def Let_def)
  apply (subst deleteAll_loop.simps)
  apply (simp add: examine_def delete_def store_updepends_def store_delete_def dependents_def
      store_list_def da_init_def inst_def pkg_def Let_def)
  done

theorem deleteAll_acyclic_empties_store_witness:
  "acyclic_store store_AB \<and> distinct (names store_AB)
   \<and> list_all (\<lambda>q. \<not> locked (meta q)) store_AB \<and> store_AB \<noteq> []
   \<and> (\<exists>tot st'. deleteAll mport_store store_AB = Some (Inr 0, Some (tot, 0, tot), st')
                \<and> store st' = [] \<and> tot = int (length (attempts st')))"
proof -
  have d: "distinct (names store_AB)"
    by (simp add: store_AB_def names_def inst_def pkg_def)
  have l: "\<forall>q\<in>set store_AB. \<not> locked (meta q)"
    by (simp add: store_AB_def inst_def pkg_def)
  have n: "store_AB \<noteq> []"
    by (simp add: store_AB_def)
  from acyclic_store_AB d l n
  have h: "acyclic_store store_AB \<and> distinct (names store_AB)
             \<and> (\<forall>q\<in>set store_AB. \<not> locked (meta q)) \<and> store_AB \<noteq> []"
    by (intro conjI)
  note e = deleteAll_acyclic_empties_store[where s = store_AB, THEN conjunct1, THEN mp, OF h]
  from l have "list_all (\<lambda>q. \<not> locked (meta q)) store_AB" by (simp add: list_all_iff)
  with acyclic_store_AB d n e show ?thesis by (intro conjI)
qed

text \<open>
  C6, as stated, fails: the store of one locked package is acyclic, and \<^verbatim>\<open>deleteAll\<close>
  terminates on it with the package still installed (summary: 0 deleted, 1 error, 1
  total).
\<close>

theorem deleteAll_locked_counterexample:
  "acyclic_store store_locked
   \<and> deleteAll mport_store store_locked
       = Some (Inr 0, Some (0, 1, 1),
               \<lparr>store = store_locked, total = 1, errors = 1, skip = 0, attempts = [''A'']\<rparr>)
   \<and> store_locked \<noteq> []"
  apply (simp add: acyclic_store_def dep_edges_def store_locked_def deleteAll_def mport_store_def
      store_list_def pkg_def acyclic_no_edges)
  apply (subst deleteAll_loop.simps)
  apply (simp add: examine_def delete_def store_updepends_def store_delete_def dependents_def
      da_init_def Let_def)
  done

subsection \<open>Removal and dependents\<close>

lemma pass_deletes_from_start:
  assumes "p \<in> set packs" and "dependents (store st) (name p) = []"
      and "\<not> list_ex (\<lambda>q. name (meta q) = name p \<and> locked (meta q)) (store st)"
  shows "name p \<notin> set (names (store (pass mport_store packs st)))"
proof -
  from assms(1) obtain pre post where sp: "packs = pre @ p # post" by (auto dest: split_list)
  have "dependents (store (pass mport_store pre st)) (name p) = []"
    using assms(2) pass_store_subset[of pre st] by (auto intro: dependents_subset)
  from pass_deletes[OF this assms(3), of post] sp show ?thesis by simp
qed







subsection \<open>Stores with a dependency cycle\<close>

lemma knot_iff:
  "knot s C \<longleftrightarrow>
     C \<noteq> [] \<and> (\<forall>n\<in>set C. n \<in> set (names s)
                       \<and> (\<exists>q\<in>set s. name (meta q) \<in> set C \<and> n \<in> set (depends q)))"
  by (simp add: knot_def list_all_iff list_ex_iff)

lemma knot_nonempty: "knot s C \<Longrightarrow> s \<noteq> []"
  by (cases C) (auto simp: knot_iff names_def)

lemma knot_has_dependents:
  "knot s C \<Longrightarrow> n \<in> set C \<Longrightarrow> dependents s n \<noteq> []"
  by (auto simp: knot_iff dependents_def filter_empty_conv)

lemma examine_knot:
  assumes "knot (store st) C"
  shows "knot (store (examine mport_store p st)) C"
proof (cases "dependents (store st) (name p) = []")
  case False
  with assms show ?thesis by (simp add: examine_store)
next
  case True
  with knot_has_dependents[OF assms] have np: "name p \<notin> set C" by blast
  let ?s1 = "store (examine mport_store p st)"
  have keep: "q \<in> set (store st) \<Longrightarrow> name (meta q) \<in> set C \<Longrightarrow> q \<in> set ?s1" for q
    using np by (intro examine_keeps_others) auto
  have "n \<in> set (names ?s1) \<and> (\<exists>q\<in>set ?s1. name (meta q) \<in> set C \<and> n \<in> set (depends q))"
    if n: "n \<in> set C" for n
  proof
    from assms n have "n \<in> set (names (store st))" by (simp add: knot_iff)
    then obtain r where r: "r \<in> set (store st)" "name (meta r) = n" by (auto simp: names_def)
    with n keep[of r] have "r \<in> set ?s1" by simp
    with r show "n \<in> set (names ?s1)" by (intro in_names)
    from assms n obtain q where q: "q \<in> set (store st)" "name (meta q) \<in> set C" "n \<in> set (depends q)"
      by (auto simp: knot_iff)
    with keep[of q] show "\<exists>q\<in>set ?s1. name (meta q) \<in> set C \<and> n \<in> set (depends q)" by blast
  qed
  moreover from assms have "C \<noteq> []" by (simp add: knot_iff)
  ultimately show ?thesis by (simp add: knot_iff)
qed

lemma pass_knot: "knot (store st) C \<Longrightarrow> knot (store (pass mport_store ps st)) C"
proof (induction ps arbitrary: st)
  case Nil
  then show ?case by simp
next
  case (Cons p ps)
  from examine_knot[OF Cons.prems, of p] Cons.IH show ?case by simp
qed

lemma pass_knot_skips:
  assumes "knot (store st) C" and "p \<in> set ps" and "name p \<in> set C"
  shows "skip st < skip (pass mport_store ps st)"
proof -
  from assms(2) obtain pre post where sp: "ps = pre @ p # post" by (auto dest: split_list)
  let ?st1 = "pass mport_store pre st"
  have "knot (store ?st1) C" using assms(1) by (rule pass_knot)
  from knot_has_dependents[OF this assms(3)]
  have "skip (examine mport_store p ?st1) = skip ?st1 + 1" by (simp add: examine_store)
  moreover have "skip st \<le> skip ?st1" by (rule pass_skip_mono)
  moreover have "skip (examine mport_store p ?st1) \<le> skip (pass mport_store post (examine mport_store p ?st1))"
    by (rule pass_skip_mono)
  ultimately show ?thesis by (simp add: sp pass_append)
qed

lemma deleteAll_loop_knot:
  "deleteAll_loop ops packs st = Some y \<Longrightarrow>
     ops = mport_store \<Longrightarrow> packs = map meta (store st) \<Longrightarrow> knot (store st) C \<Longrightarrow> False"
proof (induction rule: deleteAll_loop.raw_induct[rotated 1, consumes 1])
  case (1 f ops packs st y)
  let ?st0 = "st\<lparr>skip := 0\<rparr>"
  let ?st1 = "pass mport_store (map meta (store st)) ?st0"
  have k0: "knot (store ?st0) C" using 1(5) by simp
  then have k1: "knot (store ?st1) C" by (rule pass_knot)
  from 1(5) obtain n where n: "n \<in> set C" "n \<in> set (names (store st))"
    by (cases C) (auto simp: knot_iff)
  then obtain r where r: "r \<in> set (store st)" "name (meta r) = n" by (auto simp: names_def)
  then have "meta r \<in> set (map meta (store st))" by simp
  from pass_knot_skips[OF k0 this] r n have "skip ?st0 < skip ?st1" by simp
  then have sk: "skip ?st1 \<noteq> 0" by simp
  from knot_nonempty[OF k1]
  have "pkgmeta_list mport_store (store ?st1) = Ok (Some (map meta (store ?st1)))"
    by (simp add: mport_store_def store_list_def)
  with 1(2) sk have "f mport_store (map meta (store ?st1)) ?st1 = Some y"
    by (simp add: 1(3) 1(4) Let_def)
  from 1(1)[OF this refl refl k1] show False .
qed

lemma deleteAll_knot: "knot s C \<Longrightarrow> deleteAll mport_store s = None"
proof -
  assume k: "knot s C"
  from knot_nonempty[OF k]
  have e: "deleteAll mport_store s = deleteAll_loop mport_store (map meta s) (da_init s)"
    by (simp add: deleteAll_def mport_store_def store_list_def)
  have "deleteAll_loop mport_store (map meta s) (da_init s) = None"
  proof (cases "deleteAll_loop mport_store (map meta s) (da_init s)")
    case None
    then show ?thesis .
  next
    case (Some y)
    from deleteAll_loop_knot[OF Some refl, of C] k have False by (simp add: da_init_def)
    then show ?thesis ..
  qed
  with e show ?thesis by simp
qed

lemma cyclic_store_knot:
  assumes "\<not> acyclic_store s"
  shows "\<exists>C. knot s C"
proof -
  let ?r = "set (dep_edges s)"
  from assms obtain x where x: "(x, x) \<in> ?r\<^sup>+" by (auto simp: acyclic_store_def acyclic_def)
  let ?C = "{y. (x, y) \<in> ?r\<^sup>+ \<and> (y, x) \<in> ?r\<^sup>+}"
  have src: "a \<in> set (names s)" if "(a, b) \<in> ?r\<^sup>+" for a b
  proof -
    from that obtain z where "(a, z) \<in> ?r" by (auto dest: tranclD)
    then show ?thesis by (auto simp: dep_edges_iff names_def)
  qed
  have sub: "?C \<subseteq> set (names s)" using src by blast
  then have "finite ?C" by (rule finite_subset) simp
  then obtain C where C: "set C = ?C" using finite_list by blast
  from x have "x \<in> ?C" by simp
  with C have ne: "C \<noteq> []" by auto
  have "n \<in> set (names s) \<and> (\<exists>q\<in>set s. name (meta q) \<in> set C \<and> n \<in> set (depends q))"
    if n: "n \<in> set C" for n
  proof
    from n C sub show "n \<in> set (names s)" by blast
    from n C have xn: "(x, n) \<in> ?r\<^sup>+" and nx: "(n, x) \<in> ?r\<^sup>+" by auto
    from xn obtain m where xm: "(x, m) \<in> ?r\<^sup>*" and mn: "(m, n) \<in> ?r" by (auto dest: tranclD2)
    from xm x have "(x, m) \<in> ?r\<^sup>+" by (auto simp: rtrancl_eq_or_trancl)
    moreover from mn nx have "(m, x) \<in> ?r\<^sup>+" by (rule trancl_into_trancl2)
    ultimately have "m \<in> set C" using C by simp
    moreover from mn obtain q where "q \<in> set s" "name (meta q) = m" "n \<in> set (depends q)"
      by (auto simp: dep_edges_iff)
    ultimately show "\<exists>q\<in>set s. name (meta q) \<in> set C \<and> n \<in> set (depends q)" by blast
  qed
  with ne have "knot s C" by (simp add: knot_iff)
  then show ?thesis ..
qed

lemma cyclic_store_cycle: "\<not> acyclic_store store_cycle"
proof -
  have "(''A'', ''B'') \<in> set (dep_edges store_cycle)"
    and "(''B'', ''A'') \<in> set (dep_edges store_cycle)"
    by (simp_all add: dep_edges_def store_cycle_def inst_def pkg_def)
  then have "(''A'', ''A'') \<in> (set (dep_edges store_cycle))\<^sup>+"
    by (meson r_into_trancl trancl_trans)
  then show ?thesis by (auto simp: acyclic_store_def acyclic_def)
qed

text \<open>
  C1.  The claim is that on a set with a dependency cycle \<^verbatim>\<open>deleteAll\<close> terminates and
  reports an error.  The loop of lines 764-788 has one exit, a pass that skipped
  nothing, and every pass over a store with a cycle skips the packages of the cycle:
  on the package store, \<^verbatim>\<open>deleteAll\<close> never returns when the dependency relation has a
  cycle.  On the store of A and B that require each other, each pass skips both and
  leaves the store as it was.
\<close>

theorem deleteAll_cycle_never_returns:
  "\<not> acyclic_store s \<Longrightarrow> deleteAll mport_store s = None"
proof -
  assume "\<not> acyclic_store s"
  with cyclic_store_knot[of s] obtain C where "knot s C" by blast
  then show ?thesis by (rule deleteAll_knot)
qed

theorem deleteAll_cycle_never_returns_witness:
  "\<not> acyclic_store store_cycle \<and> deleteAll mport_store store_cycle = None
   \<and> pass mport_store (map meta store_cycle) (da_init store_cycle)
       = (da_init store_cycle)\<lparr>skip := 2\<rparr>"
proof -
  note n = deleteAll_cycle_never_returns[OF cyclic_store_cycle]
  have p: "pass mport_store (map meta store_cycle) (da_init store_cycle)
       = (da_init store_cycle)\<lparr>skip := 2\<rparr>"
    by (simp add: examine_store dependents_def store_cycle_def da_init_def inst_def pkg_def)
  from cyclic_store_cycle n p show ?thesis by (intro conjI)
qed

end
